theory Spec2Isabelle
  imports Main "HOL-Library.Multiset" "HOL-Library.Sublist"
begin

section \<open>JavaScript values used by the pipeline\<close>

text \<open>
  Errors are values. \<open>RangeError\<close> is what \<open>date-fns\<close>' \<open>format\<close> and
  \<open>Date.prototype.toISOString\<close> raise on an invalid date (``Invalid time value''),
  \<open>ApiError\<close> carries the HTTP status of a failed request of the scraper library
  (429 is the rate-limit signal).
\<close>

datatype js_error = RangeError | TypeError | ApiError nat | OtherError string

text \<open>
  A \<open>Date\<close> object is either a time value in milliseconds or the invalid date.
  \<open>new Date(v)\<close> is invalid for \<open>undefined\<close> and for a number outside
  \<open>\<plusminus>8.64e15\<close>. Numbers are modelled as integers.
\<close>

datatype jsdate = ValidDate int | InvalidDate

definition in_date_range :: "int \<Rightarrow> bool" where
  "in_date_range ms \<longleftrightarrow> - 8640000000000000 \<le> ms \<and> ms \<le> 8640000000000000"

definition new_Date :: "int option \<Rightarrow> jsdate" where
  "new_Date v =
     (case v of
        None \<Rightarrow> InvalidDate
      | Some ms \<Rightarrow> if in_date_range ms then ValidDate ms else InvalidDate)"

text \<open>\<open>x || 0\<close> on a numeric field that may be absent.\<close>

definition or0 :: "int option \<Rightarrow> int" where
  "or0 v = (case v of None \<Rightarrow> 0 | Some n \<Rightarrow> n)"

text \<open>\<open>x || []\<close> on a list field that may be absent.\<close>

definition or_empty :: "'a list option \<Rightarrow> 'a list" where
  "or_empty v = (case v of None \<Rightarrow> [] | Some xs \<Rightarrow> xs)"

text \<open>
  A JavaScript string is a list of UTF-16 code units (numbers below \<open>65536\<close>; nothing
  below depends on the bound). \<open>ascii\<close> gives the code units of an ASCII literal.
\<close>

type_synonym code_unit = nat

type_synonym js_string = "code_unit list"

definition ascii :: "string \<Rightarrow> js_string" where
  "ascii s = map of_char s"

text \<open>
  The renderings that depend on the platform (time zone, floating point) are parameters:
  \<open>format_ymd ms\<close> is \<open>format(d, 'yyyy-MM-dd')\<close> of the valid date \<open>ms\<close>,
  \<open>toISOString ms\<close> its ISO rendering, and \<open>toFixed2 s n\<close> is \<open>(s / n).toFixed(2)\<close>
  for a divisor \<open>n > 0\<close>.
\<close>

record platform =
  format_ymd :: "int \<Rightarrow> string"
  toISOString :: "int \<Rightarrow> string"
  toFixed2 :: "int \<Rightarrow> nat \<Rightarrow> string"

text \<open>\<open>format(date, 'yyyy-MM-dd')\<close> of \<open>date-fns\<close>: raises on an invalid date.\<close>

definition format_date :: "platform \<Rightarrow> jsdate \<Rightarrow> js_error + string" where
  "format_date pf d =
     (case d of InvalidDate \<Rightarrow> Inl RangeError | ValidDate ms \<Rightarrow> Inr (format_ymd pf ms))"

text \<open>
  \<open>(s / n).toFixed(2)\<close>: a division by zero does not raise in JavaScript, it yields
  \<open>NaN\<close> (for \<open>0 / 0\<close>) or an infinity, and \<open>toFixed\<close> prints those by name.
\<close>

definition div_toFixed2 :: "platform \<Rightarrow> int \<Rightarrow> nat \<Rightarrow> string" where
  "div_toFixed2 pf s n =
     (if n = 0 then (if s = 0 then ''NaN'' else if 0 < s then ''Infinity'' else ''-Infinity'')
      else toFixed2 pf s n)"

text \<open>
  \<open>xs.sort((a, b) => f(b) - f(a))\<close>: \<open>Array.prototype.sort\<close> is stable and the
  comparator is a consistent order on integer keys, so the result is the stable
  descending sort by \<open>f\<close>.
\<close>

definition sort_desc :: "('a \<Rightarrow> int) \<Rightarrow> 'a list \<Rightarrow> 'a list" where
  "sort_desc f xs = sort_key (\<lambda>x. - f x) xs"

text \<open>\<open>xs.slice(0, e)\<close>: a negative end counts from the end of the array.\<close>

definition slice0 :: "'a list \<Rightarrow> int \<Rightarrow> 'a list" where
  "slice0 xs e =
     (if e < 0 then take (nat (max (int (length xs) + e) 0)) xs else take (nat e) xs)"

text \<open>\<open>xs[0]\<close> and \<open>xs[xs.length - 1]\<close>: \<open>undefined\<close> on the empty array.\<close>

definition first_elem :: "'a list \<Rightarrow> 'a option" where
  "first_elem xs = (case xs of [] \<Rightarrow> None | x # _ \<Rightarrow> Some x)"

definition last_elem :: "'a list \<Rightarrow> 'a option" where
  "last_elem xs = (if xs = [] then None else Some (last xs))"

section \<open>Posts and analytics (DataOrganizer)\<close>

text \<open>
  The record of a tweet. The type of its \<open>timestamp\<close> is a parameter: in a stored tweet
  (\<open>post\<close>) it is a number or \<open>null\<close> (\<open>None\<close>), while \<open>processTweetData\<close> puts
  there the value it was given, which need not be a number. The counters may be absent
  (the code guards them with \<open>|| 0\<close>); \<open>tweet_text = None\<close> is an absent text, and a
  text is a list of code units.
\<close>

record 'ts tweet_record =
  tweet_id :: string
  tweet_text :: "js_string option"
  username :: string
  timestamp :: 'ts
  createdAt :: string
  isReply :: bool
  isRetweet :: bool
  likes :: "int option"
  retweetCount :: "int option"
  replies :: "int option"
  photos :: "string list"
  videos :: "string list"
  urls :: "string list"
  permanentUrl :: "string option"
  quotedStatusId :: "string option"
  inReplyToStatusId :: "string option"
  hashtags :: "string list"

type_synonym post = "int option tweet_record"

record top_tweet =
  top_id :: string
  top_text :: "js_string option"
  top_likes :: "int option"
  top_retweetCount :: "int option"
  top_replies :: "int option"
  top_timestamp :: "int option"
  top_url :: "string option"

record engagement =
  totalLikes :: int
  totalRetweetCount :: int
  totalReplies :: int
  averageLikes :: string
  topTweets :: "top_tweet list"

record time_range =
  range_start :: string
  range_end :: string

record content_types =
  withImages :: nat
  withVideos :: nat
  withLinks :: nat
  textOnly :: nat

record analytics =
  totalTweets :: nat
  directTweets :: nat
  replies_count :: nat
  retweets_count :: nat
  engagement_of :: engagement
  timeRange :: time_range
  contentTypes :: content_types

definition to_top_tweet :: "post \<Rightarrow> top_tweet" where
  "to_top_tweet t =
     \<lparr> top_id = tweet_id t, top_text = tweet_text t, top_likes = likes t,
       top_retweetCount = retweetCount t, top_replies = replies t,
       top_timestamp = timestamp t, top_url = permanentUrl t \<rparr>"

definition generateAnalytics :: "platform \<Rightarrow> post list \<Rightarrow> js_error + analytics" where
  "generateAnalytics pf tweets =
     (if length tweets = 0 then
        Inr \<lparr> totalTweets = 0, directTweets = 0, replies_count = 0, retweets_count = 0,
              engagement_of =
                \<lparr> totalLikes = 0, totalRetweetCount = 0, totalReplies = 0,
                  averageLikes = ''0.00'', topTweets = [] \<rparr>,
              timeRange = \<lparr> range_start = ''N/A'', range_end = ''N/A'' \<rparr>,
              contentTypes =
                \<lparr> withImages = 0, withVideos = 0, withLinks = 0, textOnly = 0 \<rparr> \<rparr>
      else
        let validTweets = filter (\<lambda>t. timestamp t \<noteq> None) tweets;
            validDates = sort (List.map_filter timestamp validTweets);
            tweetsForEngagement = filter (\<lambda>t. \<not> isRetweet t) tweets;
            eng =
              \<lparr> totalLikes = foldl (\<lambda>sum t. sum + or0 (likes t)) 0 tweetsForEngagement,
                totalRetweetCount =
                  foldl (\<lambda>sum t. sum + or0 (retweetCount t)) 0 tweetsForEngagement,
                totalReplies = foldl (\<lambda>sum t. sum + or0 (replies t)) 0 tweetsForEngagement,
                averageLikes =
                  div_toFixed2 pf
                    (foldl (\<lambda>sum t. sum + or0 (likes t)) 0 tweetsForEngagement)
                    (length tweetsForEngagement),
                topTweets =
                  map to_top_tweet
                    (slice0 (sort_desc (\<lambda>t. or0 (likes t)) tweetsForEngagement) 5) \<rparr>
        in
          case format_date pf (new_Date (first_elem validDates)) of
            Inl e \<Rightarrow> Inl e
          | Inr s \<Rightarrow>
              (case format_date pf (new_Date (last_elem validDates)) of
                 Inl e \<Rightarrow> Inl e
               | Inr e \<Rightarrow>
                   Inr \<lparr> totalTweets = length tweets,
                         directTweets =
                           length (filter (\<lambda>t. \<not> isReply t \<and> \<not> isRetweet t) tweets),
                         replies_count = length (filter isReply tweets),
                         retweets_count = length (filter isRetweet tweets),
                         engagement_of = eng,
                         timeRange = \<lparr> range_start = s, range_end = e \<rparr>,
                         contentTypes =
                           \<lparr> withImages = length (filter (\<lambda>t. length (photos t) > 0) tweets),
                             withVideos = length (filter (\<lambda>t. length (videos t) > 0) tweets),
                             withLinks = length (filter (\<lambda>t. length (urls t) > 0) tweets),
                             textOnly =
                               length
                                 (filter
                                    (\<lambda>t. length (photos t) = 0 \<and> length (videos t) = 0
                                       \<and> length (urls t) = 0)
                                    tweets) \<rparr> \<rparr>))"

section \<open>Fine-tuning extraction (DataOrganizer.generateFinetuningData)\<close>

text \<open>
  \<open>is_space\<close> is the class \<open>\s\<close> of a regular expression, which is also what
  \<open>trim\<close> removes: tab, line feed, vertical tab, form feed, carriage return, space,
  no-break space, U+1680, U+2000 to U+200A, the line and paragraph separators, U+202F,
  U+205F, U+3000 and U+FEFF.
\<close>

definition is_space :: "code_unit \<Rightarrow> bool" where
  "is_space c \<longleftrightarrow>
     c = 0x09 \<or> c = 0x0A \<or> c = 0x0B \<or> c = 0x0C \<or> c = 0x0D \<or> c = 0x20 \<or> c = 0xA0
     \<or> c = 0x1680 \<or> (0x2000 \<le> c \<and> c \<le> 0x200A) \<or> c = 0x2028 \<or> c = 0x2029
     \<or> c = 0x202F \<or> c = 0x205F \<or> c = 0x3000 \<or> c = 0xFEFF"

text \<open>
  \<open>s.replace(/re/g, rep)\<close>: scan from the left; where the expression matches, emit the
  replacement and go on after the match, otherwise keep the character and go on one
  further. A matcher gives the text left after its (greedy) match at the start of its
  argument. The three expressions used here never match the empty string; the length test
  is what makes the scan well-founded.
\<close>

function replace_all ::
    "(js_string \<Rightarrow> js_string option) \<Rightarrow> js_string \<Rightarrow> js_string \<Rightarrow> js_string" where
  "replace_all m rep [] = []"
| "replace_all m rep (c # cs) =
     (case m (c # cs) of
        None \<Rightarrow> c # replace_all m rep cs
      | Some rest \<Rightarrow>
          if length rest < length (c # cs) then rep @ replace_all m rep rest
          else c # replace_all m rep cs)"
  by pat_completeness auto
termination
  by (relation "measure (\<lambda>(m, rep, s). length s)") auto

text \<open>\<open>[^\s]+\<close> after a prefix: at least one character, then all up to the next space.\<close>

definition non_space_run :: "js_string \<Rightarrow> js_string option" where
  "non_space_run r =
     (if takeWhile (\<lambda>c. \<not> is_space c) r = [] then None
      else Some (dropWhile (\<lambda>c. \<not> is_space c) r))"

text \<open>\<open>/(?:https?:\/\/|www\.)[^\s]+/\<close>\<close>

definition match_url :: "js_string \<Rightarrow> js_string option" where
  "match_url s =
     (if prefix (ascii ''https://'') s then non_space_run (drop 8 s)
      else if prefix (ascii ''http://'') s then non_space_run (drop 7 s)
      else if prefix (ascii ''www.'') s then non_space_run (drop 4 s)
      else None)"

text \<open>\<open>/#[^\s#]+/\<close>; the code unit of \<open>#\<close> is 35.\<close>

definition match_hashtag :: "js_string \<Rightarrow> js_string option" where
  "match_hashtag s =
     (case s of
        [] \<Rightarrow> None
      | c # r \<Rightarrow>
          if c = 35 \<and> takeWhile (\<lambda>c. \<not> is_space c \<and> c \<noteq> 35) r \<noteq> []
          then Some (dropWhile (\<lambda>c. \<not> is_space c \<and> c \<noteq> 35) r)
          else None)"

text \<open>\<open>/\s+/\<close>\<close>

definition match_spaces :: "js_string \<Rightarrow> js_string option" where
  "match_spaces s =
     (if takeWhile is_space s = [] then None else Some (dropWhile is_space s))"

definition trim :: "js_string \<Rightarrow> js_string" where
  "trim s = rev (dropWhile is_space (rev (dropWhile is_space s)))"

text \<open>The chain of replacements applied to \<open>tweet.text\<close>; the replacement of the third is one space (32).\<close>

definition cleanText :: "js_string \<Rightarrow> js_string" where
  "cleanText t =
     trim (replace_all match_spaces [32]
       (replace_all match_hashtag [] (replace_all match_url [] t)))"

record finetuning_entry =
  entry_text :: js_string

text \<open>The first filter: not a retweet, a truthy (present and non-empty) text, a timestamp.\<close>

definition selected_for_finetuning :: "post \<Rightarrow> bool" where
  "selected_for_finetuning tweet \<longleftrightarrow>
     \<not> isRetweet tweet
     \<and> (case tweet_text tweet of None \<Rightarrow> False | Some s \<Rightarrow> s \<noteq> [])
     \<and> timestamp tweet \<noteq> None"

definition generateFinetuningData :: "post list \<Rightarrow> finetuning_entry list" where
  "generateFinetuningData tweets =
     List.map_filter
       (\<lambda>entry.
          case entry of
            None \<Rightarrow> None
          | Some e \<Rightarrow> if length (entry_text e) > 0 then Some e else None)
       (map
          (\<lambda>tweet.
             let clean = cleanText (case tweet_text tweet of None \<Rightarrow> [] | Some s \<Rightarrow> s)
             in if clean = [] then None else Some \<lparr> entry_text = clean \<rparr>)
          (filter selected_for_finetuning tweets))"

section \<open>Saving a corpus (DataOrganizer.saveTweets)\<close>

text \<open>The five files of \<open>getPaths\<close> that \<open>saveTweets\<close> writes.\<close>

datatype artifact = RawTweets | RawUrls | AnalyticsStats | FinetuningFile | SummaryFile

text \<open>
  The organizer and what surrounds a call of \<open>saveTweets\<close>: \<open>this.baseDir\<close>, the
  rendering of the current time by \<open>format(new Date(), 'yyyy-MM-dd HH:mm:ss')\<close>, and for
  each file the error with which \<open>fs.writeFile\<close> rejects, if it does (a directory that
  was not created, a full disk).
\<close>

record organizer =
  baseDir :: string
  now_formatted :: string
  write_error :: "artifact \<Rightarrow> js_error option"

text \<open>
  The summary is a fixed markdown template; the model keeps the values the template is
  filled with: the collection date, the analytics and the base directory. The parameter
  \<open>tweets\<close> is not read.
\<close>

record summary =
  collection_date :: string
  summary_analytics :: analytics
  storage_dir :: string

definition generateSummary :: "organizer \<Rightarrow> post list \<Rightarrow> analytics \<Rightarrow> summary" where
  "generateSummary this tweets analytics =
     \<lparr> collection_date = now_formatted this, summary_analytics = analytics,
       storage_dir = baseDir this \<rparr>"

text \<open>
  A completed write: the file, and the value whose serialisation the file now holds. For
  \<open>raw/urls.txt\<close> the value is the list of the lines: \<open>join\<close> renders an absent
  \<open>permanentUrl\<close> as the empty string.
\<close>

datatype file_write =
    WriteRawTweets "post list"
  | WriteRawUrls "string list"
  | WriteStats analytics
  | WriteFinetuning "finetuning_entry list"
  | WriteSummary summary

text \<open>
  \<open>saveTweets\<close>: the writes follow one another inside one \<open>try\<close>, whose \<open>catch\<close> logs
  and raises again. The result is the analytics or the error raised, with the writes
  completed until then, in order. The error of \<open>generateAnalytics\<close> comes after the
  first two writes; the fine-tuning file is written only when there are entries.
\<close>

definition saveTweets ::
    "platform \<Rightarrow> organizer \<Rightarrow> post list \<Rightarrow> (js_error + analytics) \<times> file_write list" where
  "saveTweets pf this tweets =
     (case write_error this RawTweets of
        Some e \<Rightarrow> (Inl e, [])
      | None \<Rightarrow>
          let w1 = [WriteRawTweets tweets];
              urls = map permanentUrl tweets
          in case write_error this RawUrls of
               Some e \<Rightarrow> (Inl e, w1)
             | None \<Rightarrow>
                 let w2 = w1 @ [WriteRawUrls (map (\<lambda>u. case u of None \<Rightarrow> [] | Some l \<Rightarrow> l) urls)]
                 in case generateAnalytics pf tweets of
                      Inl e \<Rightarrow> (Inl e, w2)
                    | Inr analytics \<Rightarrow>
                        (case write_error this AnalyticsStats of
                           Some e \<Rightarrow> (Inl e, w2)
                         | None \<Rightarrow>
                             let w3 = w2 @ [WriteStats analytics];
                                 finetuningData = generateFinetuningData tweets
                             in case (if length finetuningData > 0
                                      then write_error this FinetuningFile else None) of
                                  Some e \<Rightarrow> (Inl e, w3)
                                | None \<Rightarrow>
                                    let w4 = (if length finetuningData > 0
                                              then w3 @ [WriteFinetuning finetuningData]
                                              else w3)
                                    in case write_error this SummaryFile of
                                         Some e \<Rightarrow> (Inl e, w4)
                                       | None \<Rightarrow>
                                           (Inr analytics,
                                            w4 @ [WriteSummary
                                                    (generateSummary this tweets analytics)])))"

section \<open>Merging accounts (DataOrganizer.createMergedCharacter)\<close>

text \<open>
  The store on disk, read by \<open>getTweetsForAccount\<close>: an account name is mapped to
  \<open>None\<close> when its directory cannot be listed (\<open>readdir\<close> raises), otherwise to its
  date folders in listing order, each \<open>None\<close> when its \<open>raw/tweets.json\<close> is absent or
  unreadable (the folder is skipped) or the tweets parsed from it.
\<close>

type_synonym corpus_store = "string \<Rightarrow> post list option list option"

definition getTweetsForAccount :: "corpus_store \<Rightarrow> string \<Rightarrow> js_error + post list" where
  "getTweetsForAccount store accountName =
     (case store accountName of
        None \<Rightarrow> Inl (OtherError ''ENOENT'')
      | Some dateFolders \<Rightarrow>
          Inr (foldl
                 (\<lambda>allTweets folder.
                    case folder of None \<Rightarrow> allTweets | Some parsed \<Rightarrow> allTweets @ parsed)
                 [] dateFolders))"

text \<open>
  The choices of the merge prompt: \<open>'Total engagement (likes + retweets)'\<close>,
  \<open>'Likes only'\<close> and \<open>'Retweets only'\<close>.
\<close>

datatype ranking_method = TotalEngagement | LikesOnly | RetweetsOnly

text \<open>
  The options object. \<open>tweetsPerAccount = None\<close> is an absent or \<open>NaN\<close> answer of the
  number prompt.
\<close>

record merge_options =
  tweetsPerAccount :: "int option"
  excludeRetweets :: bool
  rankingMethod :: ranking_method

text \<open>The loop over the source accounts: \<open>allTweets.push(...tweets)\<close> per account.\<close>

fun load_accounts :: "corpus_store \<Rightarrow> string list \<Rightarrow> post list \<Rightarrow> js_error + post list" where
  "load_accounts store [] allTweets = Inr allTweets"
| "load_accounts store (account # rest) allTweets =
     (case getTweetsForAccount store account of
        Inl e \<Rightarrow> Inl e
      | Inr tweets \<Rightarrow> load_accounts store rest (allTweets @ tweets))"

text \<open>
  \<open>createMergedCharacter\<close>: load every account, filter, rank, cut, and save the result
  as the corpus of the new organizer. The promise resolves to nothing; what is raised
  while loading or saving rejects it. The comparator reads the likes and the retweet
  counts only, and the cut is \<open>slice(0, options.tweetsPerAccount || 50)\<close>.
\<close>

definition createMergedCharacter ::
    "platform \<Rightarrow> organizer \<Rightarrow> corpus_store \<Rightarrow> string list \<Rightarrow> merge_options
       \<Rightarrow> (js_error + unit) \<times> file_write list" where
  "createMergedCharacter pf this store sourceAccounts options =
     (case load_accounts store sourceAccounts [] of
        Inl e \<Rightarrow> (Inl e, [])
      | Inr loaded \<Rightarrow>
          let allTweets =
                (if excludeRetweets options then filter (\<lambda>tweet. \<not> isRetweet tweet) loaded
                 else loaded);
              ranked = sort_desc (\<lambda>t. or0 (likes t) + or0 (retweetCount t)) allTweets;
              topTweets =
                slice0 ranked
                  (case tweetsPerAccount options of
                     None \<Rightarrow> 50
                   | Some n \<Rightarrow> if n = 0 then 50 else n)
          in case saveTweets pf this topTweets of
               (Inl e, written) \<Rightarrow> (Inl e, written)
             | (Inr analytics, written) \<Rightarrow> (Inr (), written))"

section \<open>The cleaning of a text, as specified\<close>

text \<open>
  A second description of the cleaning, in the words of the specification and not those
  of the code, against which \<open>cleanText\<close> is compared below. White space is the set of
  the characters named above, listed by their numbers. A text is cut into tokens at white
  space. Of each token, what starts with \<open>http://\<close>, \<open>https://\<close> or \<open>www.\<close> (in
  these lower-case letters) and at least one more character is dropped up to the end of
  the token; then each \<open>#\<close> that is followed by a character other than \<open>#\<close> is dropped
  with all that follows up to the next \<open>#\<close>. The tokens that are left non-empty are
  joined by single spaces.
\<close>

definition spec_white :: "code_unit \<Rightarrow> bool" where
  "spec_white c \<longleftrightarrow>
     c \<in> set [9, 10, 11, 12, 13, 32, 160, 5760, 8232, 8233, 8239, 8287, 12288, 65279]
     \<or> (8192 \<le> c \<and> c \<le> 8202)"

fun spec_tokens_from :: "js_string \<Rightarrow> js_string \<Rightarrow> js_string list" where
  "spec_tokens_from cur [] = (if cur = [] then [] else [cur])"
| "spec_tokens_from cur (c # cs) =
     (if spec_white c then (if cur = [] then [] else [cur]) @ spec_tokens_from [] cs
      else spec_tokens_from (cur @ [c]) cs)"

definition spec_tokens :: "js_string \<Rightarrow> js_string list" where
  "spec_tokens s = spec_tokens_from [] s"

definition spec_url_start :: "js_string \<Rightarrow> bool" where
  "spec_url_start t \<longleftrightarrow>
     (\<exists>p \<in> set [ascii ''http://'', ascii ''https://'', ascii ''www.''].
        prefix p t \<and> length p < length t)"

fun spec_cut_url :: "js_string \<Rightarrow> js_string" where
  "spec_cut_url [] = []"
| "spec_cut_url (c # cs) = (if spec_url_start (c # cs) then [] else c # spec_cut_url cs)"

function spec_strip_hashtags :: "js_string \<Rightarrow> js_string" where
  "spec_strip_hashtags [] = []"
| "spec_strip_hashtags (c # cs) =
     (if c = 35 \<and> cs \<noteq> [] \<and> hd cs \<noteq> 35
      then spec_strip_hashtags (dropWhile (\<lambda>x. x \<noteq> 35) cs)
      else c # spec_strip_hashtags cs)"
  by pat_completeness auto
termination
  by (relation "measure length") (auto simp: length_dropWhile_le le_imp_less_Suc)

fun spec_join :: "js_string list \<Rightarrow> js_string" where
  "spec_join [] = []"
| "spec_join [t] = t"
| "spec_join (t # ts) = t @ 32 # spec_join ts"

definition spec_clean :: "js_string \<Rightarrow> js_string" where
  "spec_clean s =
     spec_join
       (filter (\<lambda>t. t \<noteq> [])
          (map (\<lambda>t. spec_strip_hashtags (spec_cut_url t)) (spec_tokens s)))"

text \<open>
  A text holds a URL of the kind the code strips where one of the three prefixes is
  followed by a character that is not white space, and a hashtag where \<open>#\<close> is followed
  by a character that is neither \<open>#\<close> nor white space.
\<close>

definition spec_url_here :: "js_string \<Rightarrow> bool" where
  "spec_url_here t \<longleftrightarrow>
     (\<exists>p \<in> set [ascii ''http://'', ascii ''https://'', ascii ''www.''].
        prefix p t \<and> length p < length t \<and> \<not> spec_white (t ! length p))"

fun spec_url_in :: "js_string \<Rightarrow> bool" where
  "spec_url_in [] = False"
| "spec_url_in (c # cs) = (spec_url_here (c # cs) \<or> spec_url_in cs)"

fun spec_hashtag_in :: "js_string \<Rightarrow> bool" where
  "spec_hashtag_in (c # x # cs) =
     ((c = 35 \<and> x \<noteq> 35 \<and> \<not> spec_white x) \<or> spec_hashtag_in (x # cs))"
| "spec_hashtag_in cs = False"

text \<open>
  What the specification calls URL-like is wider than what the code strips: the scheme of
  a URL may be written in capitals. \<open>spec_url_like_in\<close> holds of a text in which
  \<open>http://\<close> or \<open>https://\<close>, in any letter case, is followed by a character that is not
  white space.
\<close>

definition lower_case :: "code_unit \<Rightarrow> code_unit" where
  "lower_case c = (if 65 \<le> c \<and> c \<le> 90 then c + 32 else c)"

definition spec_url_like_here :: "js_string \<Rightarrow> bool" where
  "spec_url_like_here t \<longleftrightarrow>
     (\<exists>p \<in> set [ascii ''http://'', ascii ''https://''].
        length p < length t \<and> map lower_case (take (length p) t) = p
        \<and> \<not> spec_white (t ! length p))"

fun spec_url_like_in :: "js_string \<Rightarrow> bool" where
  "spec_url_like_in [] = False"
| "spec_url_like_in (c # cs) = (spec_url_like_here (c # cs) \<or> spec_url_like_in cs)"

text \<open>
  The extraction as specified: of the posts that are not retweets and have a non-empty
  text and a timestamp, the cleaned texts that are not empty.
\<close>

definition spec_finetuning :: "post list \<Rightarrow> finetuning_entry list" where
  "spec_finetuning tweets =
     map (\<lambda>c. \<lparr> entry_text = c \<rparr>)
       (filter (\<lambda>c. c \<noteq> [])
          (map (\<lambda>t. spec_clean (case tweet_text t of None \<Rightarrow> [] | Some s \<Rightarrow> s))
             (filter
                (\<lambda>t. \<not> isRetweet t \<and> tweet_text t \<noteq> None \<and> tweet_text t \<noteq> Some []
                   \<and> timestamp t \<noteq> None)
                tweets)))"

section \<open>Notions used in the proofs\<close>

text \<open>
  A place where an expression matches: some suffix of the text on which the matcher
  succeeds.
\<close>

fun has_match :: "(js_string \<Rightarrow> js_string option) \<Rightarrow> js_string \<Rightarrow> bool" where
  "has_match m [] = (m [] \<noteq> None)"
| "has_match m (c # cs) = (m (c # cs) \<noteq> None \<or> has_match m cs)"

text \<open>Every run of white space is one space character.\<close>

fun single_spaced :: "js_string \<Rightarrow> bool" where
  "single_spaced [] = True"
| "single_spaced (c # cs) =
     (if is_space c then c = 32 \<and> (cs = [] \<or> \<not> is_space (hd cs)) \<and> single_spaced cs
      else single_spaced cs)"

text \<open>
  What the proofs below need of a matcher: it fails on the empty text, it depends only on
  the first token (the characters up to the next white space), it keeps matching when the
  text is extended, and what it leaves is a proper suffix.
\<close>

definition token_matcher :: "(js_string \<Rightarrow> js_string option) \<Rightarrow> bool" where
  "token_matcher m \<longleftrightarrow>
     m [] = None
     \<and> (\<forall>s. m s \<noteq> None \<longrightarrow> m (takeWhile (\<lambda>c. \<not> is_space c) s) \<noteq> None)
     \<and> (\<forall>t t'. prefix t t' \<longrightarrow> m t \<noteq> None \<longrightarrow> m t' \<noteq> None)
     \<and> (\<forall>s rest. m s = Some rest \<longrightarrow> suffix rest s \<and> length rest < length s)"

text \<open>The three ways the URL expression can start.\<close>

definition url_prefix :: "js_string \<Rightarrow> bool" where
  "url_prefix P \<longleftrightarrow> P = ascii ''https://'' \<or> P = ascii ''http://'' \<or> P = ascii ''www.''"

text \<open>What is left of a text when the white space at its end is removed.\<close>

definition rtrim :: "js_string \<Rightarrow> js_string" where
  "rtrim s = rev (dropWhile is_space (rev s))"

text \<open>The tweets that a sequence of writes has put into \<open>raw/tweets.json\<close>, if any.\<close>

fun written_tweets :: "file_write list \<Rightarrow> post list option" where
  "written_tweets [] = None"
| "written_tweets (WriteRawTweets tweets # ws) =
     (case written_tweets ws of None \<Rightarrow> Some tweets | Some later \<Rightarrow> Some later)"
| "written_tweets (w # ws) = written_tweets ws"

section \<open>Normalising a raw record (TwitterPipeline.processTweetData)\<close>

text \<open>
  A number of JavaScript, as far as the tests of \<open>processTweetData\<close> tell numbers
  apart: finite (modelled as an integer), \<open>NaN\<close>, or an infinity.
\<close>

datatype js_number = Finite int | NaN | PosInfinity | NegInfinity

text \<open>
  The value of \<open>tweet.timestamp\<close>: \<open>undefined\<close>, \<open>null\<close>, a number, or any other
  value (a string, a boolean, a \<open>Date\<close>, a \<open>BigInt\<close>, an object), which is given by
  what the code observes of it: whether it is truthy, the number it converts to where it
  is compared, multiplied or passed to \<open>isNaN\<close> (\<open>None\<close> when that raises a
  \<open>TypeError\<close>, as for a \<open>BigInt\<close> or a symbol), and the date \<open>new Date\<close> makes of
  it. The string \<open>'1700000000'\<close> is \<open>TsOther True (Some (Finite 1700000000)) InvalidDate\<close>.
\<close>

datatype ts_value =
    TsUndefined
  | TsNull
  | TsNum js_number
  | TsOther bool "js_number option" jsdate

abbreviation TsNumber :: "int \<Rightarrow> ts_value" where
  "TsNumber n \<equiv> TsNum (Finite n)"

abbreviation TsNaN :: ts_value where
  "TsNaN \<equiv> TsNum NaN"

text \<open>A record as the scraper library yields it; every field may be absent.\<close>

record raw_tweet =
  raw_id :: "string option"
  raw_text :: "js_string option"
  raw_username :: "string option"
  raw_timestamp :: ts_value
  timeParsed :: "jsdate option"
  raw_isReply :: "bool option"
  raw_isRetweet :: "bool option"
  raw_likes :: "int option"
  retweets :: "int option"
  raw_replies :: "int option"
  raw_photos :: "string list option"
  raw_videos :: "string list option"
  raw_urls :: "string list option"
  raw_permanentUrl :: "string option"
  raw_quotedStatusId :: "string option"
  raw_inReplyToStatusId :: "string option"
  raw_hashtags :: "string list option"

text \<open>The counters of a run (\<open>this.stats\<close>); the dates are \<open>null\<close> or a \<open>Date\<close>.\<close>

record stats =
  requestCount :: nat
  rateLimitHits :: nat
  retriesCount :: nat
  uniqueTweets :: nat
  fallbackCount :: nat
  oldestTweetDate :: "jsdate option"
  newestTweetDate :: "jsdate option"
  fallbackUsed :: bool

text \<open>\<open>!s\<close> on a string that may be absent: true when absent or empty.\<close>

definition falsy_string :: "string option \<Rightarrow> bool" where
  "falsy_string v \<longleftrightarrow> v = None \<or> v = Some []"

text \<open>
  \<open>!v\<close> on a timestamp value: \<open>undefined\<close>, \<open>null\<close>, \<open>0\<close> and \<open>NaN\<close> are
  falsy, and of the other values those that are not truthy (the empty string, \<open>false\<close>,
  \<open>0n\<close>).
\<close>

definition falsy_ts :: "ts_value \<Rightarrow> bool" where
  "falsy_ts v =
     (case v of
        TsUndefined \<Rightarrow> True
      | TsNull \<Rightarrow> True
      | TsNum x \<Rightarrow> x = Finite 0 \<or> x = NaN
      | TsOther truthy c d \<Rightarrow> \<not> truthy)"

text \<open>The conversion to a number; \<open>None\<close> when it raises.\<close>

definition to_number :: "ts_value \<Rightarrow> js_number option" where
  "to_number v =
     (case v of
        TsUndefined \<Rightarrow> Some NaN
      | TsNull \<Rightarrow> Some (Finite 0)
      | TsNum x \<Rightarrow> Some x
      | TsOther truthy c d \<Rightarrow> c)"

text \<open>\<open>x < 1e12\<close>, \<open>x * 1000\<close>, \<open>isNaN(x)\<close> and \<open>x <= 0\<close> on numbers.\<close>

definition less_1e12 :: "js_number \<Rightarrow> bool" where
  "less_1e12 x =
     (case x of Finite n \<Rightarrow> n < 1000000000000 | NegInfinity \<Rightarrow> True | _ \<Rightarrow> False)"

definition times_1000 :: "js_number \<Rightarrow> js_number" where
  "times_1000 x = (case x of Finite n \<Rightarrow> Finite (n * 1000) | _ \<Rightarrow> x)"

definition is_NaN :: "js_number \<Rightarrow> bool" where
  "is_NaN x \<longleftrightarrow> x = NaN"

definition le_0 :: "js_number \<Rightarrow> bool" where
  "le_0 x = (case x of Finite n \<Rightarrow> n \<le> 0 | NegInfinity \<Rightarrow> True | _ \<Rightarrow> False)"

text \<open>
  \<open>new Date(v)\<close>: of a finite number the date of that time value when it is in range,
  of \<open>null\<close> the epoch, of another value what the value says; invalid otherwise.
\<close>

definition date_of :: "ts_value \<Rightarrow> jsdate" where
  "date_of v =
     (case v of
        TsUndefined \<Rightarrow> InvalidDate
      | TsNull \<Rightarrow> ValidDate 0
      | TsNum x \<Rightarrow> (case x of Finite n \<Rightarrow> new_Date (Some n) | _ \<Rightarrow> InvalidDate)
      | TsOther truthy c d \<Rightarrow> d)"

text \<open>\<open>d.getTime()\<close>\<close>

definition getTime :: "jsdate \<Rightarrow> ts_value" where
  "getTime d = (case d of ValidDate ms \<Rightarrow> TsNumber ms | InvalidDate \<Rightarrow> TsNaN)"

text \<open>
  The timestamp the record yields: the epoch field, or when that is falsy
  \<open>tweet.timeParsed?.getTime()\<close>.
\<close>

definition derived_timestamp :: "raw_tweet \<Rightarrow> ts_value" where
  "derived_timestamp tweet =
     (if falsy_ts (raw_timestamp tweet) then
        (case timeParsed tweet of None \<Rightarrow> TsUndefined | Some d \<Rightarrow> getTime d)
      else raw_timestamp tweet)"

text \<open>\<open>a < b\<close> on dates compares the time values; a comparison with \<open>NaN\<close> is false.\<close>

definition date_less :: "jsdate \<Rightarrow> jsdate \<Rightarrow> bool" where
  "date_less a b =
     (case (a, b) of (ValidDate x, ValidDate y) \<Rightarrow> x < y | _ \<Rightarrow> False)"

definition track_dates :: "jsdate \<Rightarrow> stats \<Rightarrow> stats" where
  "track_dates tweetDate st =
     (let st1 =
            (case oldestTweetDate st of
               None \<Rightarrow> st\<lparr>oldestTweetDate := Some tweetDate\<rparr>
             | Some oldest \<Rightarrow>
                 if date_less tweetDate oldest then st\<lparr>oldestTweetDate := Some tweetDate\<rparr>
                 else st)
      in case newestTweetDate st1 of
           None \<Rightarrow> st1\<lparr>newestTweetDate := Some tweetDate\<rparr>
         | Some newest \<Rightarrow>
             if date_less newest tweetDate then st1\<lparr>newestTweetDate := Some tweetDate\<rparr>
             else st1)"

text \<open>
  \<open>processTweetData\<close>, with the pipeline's user name and counters passed in and the
  counters returned. The argument \<open>None\<close> is a \<open>null\<close> record. Everything raised inside
  is caught and turned into \<open>null\<close>: a conversion of the timestamp that raises, before
  the date trackers are updated, and \<open>toISOString\<close> on an invalid date, after that.
  The timestamp of the result is the product when the value was multiplied and the value
  itself otherwise.
\<close>

type_synonym processed_tweet = "ts_value tweet_record"

definition processTweetData ::
    "platform \<Rightarrow> string \<Rightarrow> stats \<Rightarrow> raw_tweet option \<Rightarrow> processed_tweet option \<times> stats" where
  "processTweetData pf this_username st arg =
     (case arg of
        None \<Rightarrow> (None, st)
      | Some tweet \<Rightarrow>
          if falsy_string (raw_id tweet) then (None, st)
          else if falsy_ts (derived_timestamp tweet) then (None, st)
          else
            (case to_number (derived_timestamp tweet) of
               None \<Rightarrow> (None, st)
             | Some x \<Rightarrow>
                 (let timestamp_value =
                        (if less_1e12 x then TsNum (times_1000 x) else derived_timestamp tweet)
                  in case to_number timestamp_value of
                       None \<Rightarrow> (None, st)
                     | Some y \<Rightarrow>
                         if is_NaN y \<or> le_0 y then (None, st)
                         else
                           (let tweetDate = date_of timestamp_value;
                                st' = track_dates tweetDate st
                            in case tweetDate of
                                 InvalidDate \<Rightarrow> (None, st')
                               | ValidDate ms \<Rightarrow>
                                   (Some
                                      \<lparr> tweet_id = (case raw_id tweet of None \<Rightarrow> [] | Some i \<Rightarrow> i),
                                        tweet_text = raw_text tweet,
                                        username =
                                          (if falsy_string (raw_username tweet) then this_username
                                           else (case raw_username tweet of
                                                   None \<Rightarrow> [] | Some u \<Rightarrow> u)),
                                        timestamp = timestamp_value,
                                        createdAt = toISOString pf ms,
                                        isReply = (raw_isReply tweet = Some True),
                                        isRetweet = (raw_isRetweet tweet = Some True),
                                        likes = Some (or0 (raw_likes tweet)),
                                        retweetCount = Some (or0 (retweets tweet)),
                                        replies = Some (or0 (raw_replies tweet)),
                                        photos = or_empty (raw_photos tweet),
                                        videos = or_empty (raw_videos tweet),
                                        urls = or_empty (raw_urls tweet),
                                        permanentUrl = raw_permanentUrl tweet,
                                        quotedStatusId = raw_quotedStatusId tweet,
                                        inReplyToStatusId = raw_inReplyToStatusId tweet,
                                        hashtags = or_empty (raw_hashtags tweet) \<rparr>,
                                    st')))))"

section \<open>Collecting (TwitterPipeline.collectTweets)\<close>

text \<open>
  \<open>parseInt(process.env.X) || d\<close>: the default when the variable is unset, not a
  number, or 0.
\<close>

definition env_or :: "int option \<Rightarrow> int \<Rightarrow> int" where
  "env_or v d = (case v of None \<Rightarrow> d | Some n \<Rightarrow> if n = 0 then d else n)"

record twitter_config =
  maxTweets :: int
  maxRetries :: int
  retryDelay :: int
  minDelayBetweenRequests :: int
  maxDelayBetweenRequests :: int
  rateLimitThreshold :: int

text \<open>The configuration the constructor builds from the environment variables.\<close>

definition make_config :: "(string \<Rightarrow> int option) \<Rightarrow> twitter_config" where
  "make_config env =
     \<lparr> maxTweets = env_or (env ''MAX_TWEETS'') 50000,
       maxRetries = env_or (env ''MAX_RETRIES'') 5,
       retryDelay = env_or (env ''RETRY_DELAY'') 5000,
       minDelayBetweenRequests = env_or (env ''MIN_DELAY'') 1000,
       maxDelayBetweenRequests = env_or (env ''MAX_DELAY'') 3000,
       rateLimitThreshold = 3 \<rparr>"

text \<open>
  The pipeline object: its configuration and counters, whether the fallback cluster has
  been launched (\<open>this.cluster\<close> is not \<open>null\<close>), and what \<open>scraper.logout()\<close> will
  raise, if anything.
\<close>

record pipeline =
  this_username :: string
  config :: twitter_config
  fallback_enabled :: bool
  pipeline_stats :: stats
  cluster_launched :: bool
  logged_in :: bool
  logout_raises :: "string option"

definition new_pipeline :: "(string \<Rightarrow> int option) \<Rightarrow> string \<Rightarrow> pipeline" where
  "new_pipeline env name =
     \<lparr> this_username = name,
       config = make_config env,
       fallback_enabled = True,
       pipeline_stats =
         \<lparr> requestCount = 0, rateLimitHits = 0, retriesCount = 0, uniqueTweets = 0,
           fallbackCount = 0, oldestTweetDate = None, newestTweetDate = None,
           fallbackUsed = False \<rparr>,
       cluster_launched = False,
       logged_in = False,
       logout_raises = None \<rparr>"

text \<open>\<open>initializeFallback\<close>: launches the cluster unless there is one.\<close>

definition initializeFallback :: "pipeline \<Rightarrow> pipeline" where
  "initializeFallback p = (if \<not> cluster_launched p then p\<lparr>cluster_launched := True\<rparr> else p)"

text \<open>
  What the scraper's iterator does, step by step: it yields a record (\<open>Inr\<close>) or raises
  (\<open>Inl\<close>), which ends the iteration; a rate limit reaches the pipeline as a raised
  \<open>ApiError 429\<close>. The scraper (\<open>searchTweets\<close>, from the query and the budget to these
  steps) and the filter (\<open>shouldIncludeTweet\<close>, of \<open>TweetFilter.js\<close>) are parameters.
\<close>

type_synonym feed = "(js_error + raw_tweet option) list"

text \<open>
  The query: \<open>from:<name>\<close>, then \<open>since:\<close> and \<open>until:\<close> with the bounds formatted
  by \<open>date-fns\<close>, which raises on an invalid date.
\<close>

definition build_query ::
    "platform \<Rightarrow> string \<Rightarrow> jsdate option \<Rightarrow> jsdate option \<Rightarrow> js_error + string" where
  "build_query pf name fromDateObj toDateObj =
     (case (case fromDateObj of
              None \<Rightarrow> Inr (''from:'' @ name)
            | Some d \<Rightarrow>
                (case format_date pf d of
                   Inl e \<Rightarrow> Inl e
                 | Inr f \<Rightarrow> Inr (''from:'' @ name @ '' since:'' @ f))) of
        Inl e \<Rightarrow> Inl e
      | Inr q \<Rightarrow>
          (case toDateObj of
             None \<Rightarrow> Inr q
           | Some d \<Rightarrow>
               (case format_date pf d of
                  Inl e \<Rightarrow> Inl e
                | Inr f \<Rightarrow> Inr (q @ '' until:'' @ f))))"

text \<open>The \<open>for await\<close> loop over the iterator.\<close>

fun collect_loop ::
    "platform \<Rightarrow> (raw_tweet option \<Rightarrow> bool) \<Rightarrow> string \<Rightarrow> feed \<Rightarrow> stats
      \<Rightarrow> processed_tweet list \<Rightarrow> (js_error + processed_tweet list) \<times> stats" where
  "collect_loop pf shouldIncludeTweet name [] st collectedTweets = (Inr collectedTweets, st)"
| "collect_loop pf shouldIncludeTweet name (Inl e # steps) st collectedTweets = (Inl e, st)"
| "collect_loop pf shouldIncludeTweet name (Inr tweet # steps) st collectedTweets =
     (let st1 = st\<lparr>requestCount := requestCount st + 1\<rparr>
      in if shouldIncludeTweet tweet then
           (case processTweetData pf name st1 tweet of
              (Some processedTweet, st2) \<Rightarrow>
                collect_loop pf shouldIncludeTweet name steps
                  (st2\<lparr>uniqueTweets := uniqueTweets st2 + 1\<rparr>)
                  (collectedTweets @ [processedTweet])
            | (None, st2) \<Rightarrow>
                collect_loop pf shouldIncludeTweet name steps st2 collectedTweets)
         else collect_loop pf shouldIncludeTweet name steps st1 collectedTweets)"

text \<open>
  \<open>collectTweets\<close>: the \<open>catch\<close> logs and re-raises; nothing else is done with an
  error of the iterator.
\<close>

definition collectTweets ::
    "platform \<Rightarrow> (raw_tweet option \<Rightarrow> bool) \<Rightarrow> (string \<Rightarrow> int \<Rightarrow> feed) \<Rightarrow> pipeline
      \<Rightarrow> jsdate option \<Rightarrow> jsdate option \<Rightarrow> (js_error + processed_tweet list) \<times> pipeline" where
  "collectTweets pf shouldIncludeTweet searchTweets p fromDateObj toDateObj =
     (case build_query pf (this_username p) fromDateObj toDateObj of
        Inl e \<Rightarrow> (Inl e, p)
      | Inr searchQuery \<Rightarrow>
          (case collect_loop pf shouldIncludeTweet (this_username p)
                  (searchTweets searchQuery (maxTweets (config p))) (pipeline_stats p) [] of
             (result, st) \<Rightarrow> (result, p\<lparr>pipeline_stats := st\<rparr>)))"

section \<open>Cleanup (TwitterPipeline.cleanup and the signal handler of index.js)\<close>

text \<open>
  The \<open>progress\<close> object written to \<open>meta/progress.json\<close> (the clock value \<open>endTime\<close>
  is left out).
\<close>

record progress_info =
  completed :: bool
  progress_fallbackUsed :: "bool option"
  progress_fallbackCount :: "nat option"
  progress_rateLimitHits :: "nat option"
  progress_error :: "string option"

record progress_record =
  progress :: progress_info
  progress_totalTweets :: nat

text \<open>
  The process: the module variable \<open>pipeline\<close> of \<open>index.js\<close> (\<open>None\<close> before the
  command's action has run), the content of the progress file (\<open>None\<close> when there is
  none) and the exit code once the process has exited.
\<close>

record process_state =
  current_pipeline :: "pipeline option"
  progress_file :: "progress_record option"
  exit_code :: "int option"

text \<open>\<open>saveProgress(null, null, totalTweets, progress)\<close>\<close>

definition saveProgress :: "nat \<Rightarrow> progress_info \<Rightarrow> process_state \<Rightarrow> process_state" where
  "saveProgress n info w =
     w\<lparr>progress_file := Some \<lparr> progress = info, progress_totalTweets = n \<rparr>\<rparr>"

text \<open>
  \<open>TwitterPipeline.cleanup\<close>, called by \<open>run\<close> when the pipeline has failed: log out,
  close the cluster, write the terminal progress record; when the logout raises, the
  \<open>catch\<close> writes the record with the error's message instead.
\<close>

definition pipeline_cleanup :: "pipeline \<Rightarrow> process_state \<Rightarrow> pipeline \<times> process_state" where
  "pipeline_cleanup p w =
     (case logout_raises p of
        Some msg \<Rightarrow>
          (p,
           saveProgress (uniqueTweets (pipeline_stats p))
             \<lparr> completed = True, progress_fallbackUsed = None, progress_fallbackCount = None,
               progress_rateLimitHits = None, progress_error = Some msg \<rparr> w)
      | None \<Rightarrow>
          (p\<lparr>logged_in := False, cluster_launched := False\<rparr>,
           saveProgress (uniqueTweets (pipeline_stats p))
             \<lparr> completed = True,
               progress_fallbackUsed = Some (fallbackUsed (pipeline_stats p)),
               progress_fallbackCount = Some (fallbackCount (pipeline_stats p)),
               progress_rateLimitHits = Some (rateLimitHits (pipeline_stats p)),
               progress_error = None \<rparr> w))"

text \<open>
  \<open>cleanup\<close> of \<open>index.js\<close>, the handler of \<open>SIGINT\<close> and \<open>SIGTERM\<close>: it logs the
  scraper out (an error is logged, not raised) and exits with code 0.
\<close>

definition signal_cleanup :: "process_state \<Rightarrow> process_state" where
  "signal_cleanup w =
     (case current_pipeline w of
        None \<Rightarrow> w\<lparr>exit_code := Some 0\<rparr>
      | Some p \<Rightarrow>
          (case logout_raises p of
             Some msg \<Rightarrow> w\<lparr>exit_code := Some 0\<rparr>
           | None \<Rightarrow> w\<lparr>current_pipeline := Some (p\<lparr>logged_in := False\<rparr>), exit_code := Some 0\<rparr>))"

section \<open>Sample data\<close>

text \<open>
  Concrete inputs at which the theorems below are instantiated: a platform with fixed
  renderings, posts that differ in the fields given, a store of two accounts.
\<close>

definition sample_platform :: platform where
  "sample_platform =
     \<lparr> format_ymd = (\<lambda>ms. ''2024-01-01''),
       toISOString = (\<lambda>ms. ''2024-01-01T00:00:00.000Z''),
       toFixed2 = (\<lambda>s n. ''0.00'') \<rparr>"

definition sample_post :: "string \<Rightarrow> int option \<Rightarrow> bool \<Rightarrow> int option \<Rightarrow> int option \<Rightarrow> post" where
  "sample_post i ts rt l r =
     \<lparr> tweet_id = i, tweet_text = Some (ascii ''gm''), username = ''alice'', timestamp = ts,
       createdAt = [], isReply = False, isRetweet = rt, likes = l, retweetCount = r,
       replies = Some 0, photos = [], videos = [], urls = [], permanentUrl = None,
       quotedStatusId = None, inReplyToStatusId = None, hashtags = [] \<rparr>"

definition sample_organizer :: organizer where
  "sample_organizer =
     \<lparr> baseDir = ''pipeline/merged/2024-01-01'', now_formatted = ''2024-01-01 00:00:00'',
       write_error = (\<lambda>a. None) \<rparr>"

definition sample_store :: corpus_store where
  "sample_store account =
     (if account = ''a'' then
        Some [Some [sample_post ''a1'' (Some 1700000000000) False (Some 1) (Some 10)]]
      else if account = ''b'' then
        Some [None, Some [sample_post ''b1'' (Some 1700000001000) False (Some 5) (Some 0)]]
      else None)"

definition sample_raw :: "string option \<Rightarrow> ts_value \<Rightarrow> jsdate option \<Rightarrow> raw_tweet" where
  "sample_raw i ts parsed =
     \<lparr> raw_id = i, raw_text = Some (ascii ''gm''), raw_username = None, raw_timestamp = ts,
       timeParsed = parsed, raw_isReply = None, raw_isRetweet = None, raw_likes = None,
       retweets = None, raw_replies = None, raw_photos = None, raw_videos = None,
       raw_urls = None, raw_permanentUrl = None, raw_quotedStatusId = None,
       raw_inReplyToStatusId = None, raw_hashtags = None \<rparr>"

text \<open>A post whose timestamp no date can hold and whose text has a URL in capitals.\<close>

definition sample_shouting :: post where
  "sample_shouting =
     (sample_post ''5'' (Some 10000000000000000) False None None)
       \<lparr>tweet_text := Some (ascii ''see HTTP://x.io'')\<rparr>"

definition sample_pipeline :: pipeline where
  "sample_pipeline = new_pipeline (\<lambda>v. None) ''alice''"

text \<open>
  The first text has an ideographic space (12288) and a tab after \<open>gm\<close>, a line feed
  after \<open>frens\<close> and a no-break space (160) at its end.
\<close>

definition sample_noisy_text :: js_string where
  "sample_noisy_text =
     ascii ''gm'' @ [12288, 9] @ ascii ''#web3 frens'' @ [10]
       @ ascii ''https://t.co/x www.a.io ##x'' @ [160]"

definition sample_tweets :: "post list" where
  "sample_tweets =
     [(sample_post ''1'' (Some 1700000000000) False None None)
        \<lparr>tweet_text := Some sample_noisy_text\<rparr>,
      (sample_post ''2'' (Some 1700000000000) False None None)
        \<lparr>tweet_text := Some (ascii ''#only https://t.co/y'')\<rparr>,
      sample_post ''3'' (Some 1700000000000) True None None,
      sample_post ''4'' None False None None]"

section \<open>Properties of the analytics\<close>

subsection \<open>The empty corpus\<close>

text \<open>
  C9. \<open>generateAnalytics\<close> on the empty list returns the zero-value result: no tweets,
  average likes \<open>"0.00"\<close>, both bounds of the time range \<open>"N/A"\<close>, no top tweets, and
  every per-type and content-type count 0.
\<close>

theorem generateAnalytics_empty:
  "generateAnalytics pf [] =
     Inr \<lparr> totalTweets = 0, directTweets = 0, replies_count = 0, retweets_count = 0,
           engagement_of =
             \<lparr> totalLikes = 0, totalRetweetCount = 0, totalReplies = 0,
               averageLikes = ''0.00'', topTweets = [] \<rparr>,
           timeRange = \<lparr> range_start = ''N/A'', range_end = ''N/A'' \<rparr>,
           contentTypes = \<lparr> withImages = 0, withVideos = 0, withLinks = 0, textOnly = 0 \<rparr> \<rparr>"
  by (simp add: generateAnalytics_def)

subsection \<open>Sorting and slicing\<close>

lemma sort_desc_mset: "mset (sort_desc f xs) = mset xs"
  by (simp add: sort_desc_def)

lemma sort_desc_length: "length (sort_desc f xs) = length xs"
  by (simp add: sort_desc_def)

lemma sort_desc_sorted: "sorted_wrt (\<lambda>x y. f y \<le> f x) (sort_desc f xs)"
proof -
  have "sorted (map (\<lambda>x. - f x) (sort_key (\<lambda>x. - f x) xs))"
    by (rule sorted_sort_key)
  then show ?thesis
    by (simp add: sort_desc_def sorted_map)
qed

lemma sort_desc_stable:
  "filter (\<lambda>y. f y = k) (sort_desc f xs) = filter (\<lambda>y. f y = k) xs"
proof -
  have "filter (\<lambda>y. - f y = - k) (sort_key (\<lambda>x. - f x) xs)
      = filter (\<lambda>y. - f y = - k) xs"
    by (rule sort_key_stable)
  then show ?thesis
    by (simp add: sort_desc_def)
qed

lemma first_elem_sort_mem:
  assumes "xs \<noteq> []"
  shows "\<exists>x \<in> set xs. first_elem (sort xs) = Some x"
proof -
  from assms have "sort xs \<noteq> []"
    by (metis length_sort length_0_conv)
  then obtain y ys where ys: "sort xs = y # ys"
    by (cases "sort xs") auto
  then have "y \<in> set xs"
    by (metis list.set_intros(1) set_sort)
  with ys show ?thesis
    by (auto simp: first_elem_def)
qed

lemma last_elem_sort_mem:
  assumes "xs \<noteq> []"
  shows "\<exists>x \<in> set xs. last_elem (sort xs) = Some x"
proof -
  from assms have ne: "sort xs \<noteq> []"
    by (metis length_sort length_0_conv)
  then have "last (sort xs) \<in> set xs"
    by (metis last_in_set set_sort)
  with ne show ?thesis
    by (auto simp: last_elem_def)
qed

subsection \<open>The time range\<close>

lemma map_filter_timestamp_set:
  "set (List.map_filter timestamp ts) = {ms. \<exists>t \<in> set ts. timestamp t = Some ms}"
  by (induction ts) (auto simp: List.map_filter_simps split: option.splits)

lemma valid_dates_empty:
  "\<forall>t\<in>set tweets. timestamp t = None \<Longrightarrow>
     sort (List.map_filter timestamp (filter (\<lambda>t. timestamp t \<noteq> None) tweets)) = []"
  by (induction tweets) (auto simp: List.map_filter_simps)

lemma valid_dates_bounds:
  assumes "\<exists>t\<in>set tweets. timestamp t \<noteq> None"
    and "\<forall>t\<in>set tweets. \<forall>ms. timestamp t = Some ms \<longrightarrow> in_date_range ms"
  shows "\<exists>lo hi.
      first_elem (sort (List.map_filter timestamp (filter (\<lambda>t. timestamp t \<noteq> None) tweets)))
        = Some lo
      \<and> last_elem (sort (List.map_filter timestamp (filter (\<lambda>t. timestamp t \<noteq> None) tweets)))
        = Some hi
      \<and> in_date_range lo \<and> in_date_range hi"
proof -
  let ?ds = "List.map_filter timestamp (filter (\<lambda>t. timestamp t \<noteq> None) tweets)"
  have mem: "set ?ds = {ms. \<exists>t \<in> set tweets. timestamp t = Some ms}"
    by (auto simp: map_filter_timestamp_set)
  from assms(1) have "set ?ds \<noteq> {}"
    unfolding mem by auto
  then have ne: "?ds \<noteq> []"
    by auto
  from first_elem_sort_mem [OF ne] obtain lo
    where lo: "lo \<in> set ?ds" "first_elem (sort ?ds) = Some lo"
    by blast
  from last_elem_sort_mem [OF ne] obtain hi
    where hi: "hi \<in> set ?ds" "last_elem (sort ?ds) = Some hi"
    by blast
  from lo(1) hi(1) assms(2) have "in_date_range lo" "in_date_range hi"
    unfolding mem by auto
  with lo(2) hi(2) show ?thesis
    by blast
qed

text \<open>
  C4. The claim that the analysis never raises and gives \<open>"N/A"\<close> bounds when no post
  has a timestamp does not hold of the code: on a non-empty list whose timestamps are all
  \<open>null\<close>, \<open>validDates\<close> is empty, \<open>new Date(undefined)\<close> is the invalid date and
  \<open>format\<close> raises a \<open>RangeError\<close>. Only the empty list gets the \<open>"N/A"\<close> range.
\<close>

theorem generateAnalytics_no_valid_timestamp:
  assumes "tweets \<noteq> []" and "\<forall>t\<in>set tweets. timestamp t = None"
  shows "generateAnalytics pf tweets = Inl RangeError"
  using assms(1) valid_dates_empty [OF assms(2)]
  by (simp add: generateAnalytics_def Let_def first_elem_def new_Date_def format_date_def)

theorem generateAnalytics_no_valid_timestamp_witness:
  "generateAnalytics sample_platform [sample_post ''1'' None False (Some 3) None]
     = Inl RangeError"
  using generateAnalytics_no_valid_timestamp
    [of "[sample_post ''1'' None False (Some 3) None]" sample_platform]
  by (simp add: sample_post_def)

subsection \<open>A corpus of retweets only\<close>

text \<open>
  Where the analysis of a non-empty list of retweets returns (some post has a timestamp
  and every timestamp is a valid time value), the engagement totals are 0, there are no
  top tweets, and the average is \<open>"NaN"\<close>: the division is by the number of posts that
  are not retweets, which is 0.
\<close>

lemma all_retweets_average:
  assumes "tweets \<noteq> []" and "\<forall>t\<in>set tweets. isRetweet t"
    and "\<exists>t\<in>set tweets. timestamp t \<noteq> None"
    and "\<forall>t\<in>set tweets. \<forall>ms. timestamp t = Some ms \<longrightarrow> in_date_range ms"
  shows "\<exists>a. generateAnalytics pf tweets = Inr a
           \<and> totalLikes (engagement_of a) = 0
           \<and> totalRetweetCount (engagement_of a) = 0
           \<and> totalReplies (engagement_of a) = 0
           \<and> topTweets (engagement_of a) = []
           \<and> averageLikes (engagement_of a) = ''NaN''"
proof -
  from assms(2) have nil: "filter (\<lambda>t. \<not> isRetweet t) tweets = []"
    by (induction tweets) auto
  from valid_dates_bounds [OF assms(3,4)] obtain lo hi where
    b: "first_elem (sort (List.map_filter timestamp (filter (\<lambda>t. timestamp t \<noteq> None) tweets)))
          = Some lo"
       "last_elem (sort (List.map_filter timestamp (filter (\<lambda>t. timestamp t \<noteq> None) tweets)))
          = Some hi"
       "in_date_range lo" "in_date_range hi"
    by blast
  show ?thesis
    using assms(1) nil b
    by (simp add: generateAnalytics_def Let_def new_Date_def format_date_def
        div_toFixed2_def sort_desc_def slice0_def)
qed

text \<open>
  C10. On a non-empty list of retweets the analysis is to return, with zero totals, no
  top tweets and the average \<open>"NaN"\<close>. The code does not on every such list: one
  retweet without a timestamp makes the time range raise a \<open>RangeError\<close>, so nothing is
  returned.
\<close>

theorem generateAnalytics_all_retweets_raises:
  "isRetweet (sample_post ''1'' None True (Some 3) None)
   \<and> generateAnalytics sample_platform [sample_post ''1'' None True (Some 3) None]
       = Inl RangeError"
  by (simp add: generateAnalytics_def Let_def sample_post_def List.map_filter_simps
      first_elem_def new_Date_def format_date_def)

subsection \<open>The top tweets\<close>

lemma generateAnalytics_returns:
  assumes "tweets = [] \<or> (\<exists>t\<in>set tweets. timestamp t \<noteq> None)"
    and "\<forall>t\<in>set tweets. \<forall>ms. timestamp t = Some ms \<longrightarrow> in_date_range ms"
  shows "\<exists>a. generateAnalytics pf tweets = Inr a"
proof (cases "tweets = []")
  case True
  then show ?thesis
    by (simp add: generateAnalytics_def)
next
  case False
  with assms(1) have ex: "\<exists>t\<in>set tweets. timestamp t \<noteq> None"
    by simp
  from valid_dates_bounds [OF ex assms(2)] obtain lo hi where
    b: "first_elem (sort (List.map_filter timestamp (filter (\<lambda>t. timestamp t \<noteq> None) tweets)))
          = Some lo"
       "last_elem (sort (List.map_filter timestamp (filter (\<lambda>t. timestamp t \<noteq> None) tweets)))
          = Some hi"
       "in_date_range lo" "in_date_range hi"
    by blast
  show ?thesis
    using False b
    by (simp add: generateAnalytics_def Let_def new_Date_def format_date_def)
qed

lemma sorted_bounds:
  assumes "sorted (xs :: int list)" and "x \<in> set xs"
  shows "hd xs \<le> x \<and> x \<le> last xs"
proof -
  from assms(2) have ne: "xs \<noteq> []" by auto
  then obtain y ys where xs: "xs = y # ys" by (cases xs) auto
  with assms have "hd xs \<le> x" by auto
  moreover from ne obtain zs z where zs: "xs = zs @ [z]"
    by (metis rev_exhaust)
  with assms have "x \<le> last xs"
    by (auto simp: sorted_append)
  ultimately show ?thesis by simp
qed

text \<open>Conversely, a non-empty list on which the analysis returns has such timestamps.\<close>

lemma generateAnalytics_returns_only:
  assumes "generateAnalytics pf tweets = Inr a" and "tweets \<noteq> []"
  shows "(\<exists>t\<in>set tweets. timestamp t \<noteq> None)
     \<and> (\<forall>t\<in>set tweets. \<forall>ms. timestamp t = Some ms \<longrightarrow> in_date_range ms)"
proof -
  let ?ds = "sort (List.map_filter timestamp (filter (\<lambda>t. timestamp t \<noteq> None) tweets))"
  from assms have f: "\<exists>lo. first_elem ?ds = Some lo \<and> in_date_range lo"
    and l: "\<exists>hi. last_elem ?ds = Some hi \<and> in_date_range hi"
    by (auto simp: generateAnalytics_def Let_def new_Date_def format_date_def
        split: sum.splits option.splits if_splits jsdate.splits)
  then have ne: "?ds \<noteq> []"
    by (auto simp: first_elem_def)
  have mem: "set ?ds = {ms. \<exists>t \<in> set tweets. timestamp t = Some ms}"
    by (auto simp: map_filter_timestamp_set)
  from ne have "set ?ds \<noteq> {}"
    by (simp only: set_empty not_False_eq_True)
  then have ex: "\<exists>t\<in>set tweets. timestamp t \<noteq> None"
    unfolding mem by auto
  from f ne have lo: "in_date_range (hd ?ds)"
    by (cases ?ds) (auto simp: first_elem_def)
  from l ne have hi: "in_date_range (last ?ds)"
    by (auto simp: last_elem_def)
  have "in_date_range ms" if "t \<in> set tweets" "timestamp t = Some ms" for t ms
  proof -
    from that have "ms \<in> set ?ds" unfolding mem by blast
    with sorted_bounds [of ?ds ms] have "hd ?ds \<le> ms \<and> ms \<le> last ?ds"
      by simp
    with lo hi show ?thesis
      by (simp add: in_date_range_def)
  qed
  with ex show ?thesis by blast
qed

lemma topTweets_of_result:
  assumes "generateAnalytics pf tweets = Inr a"
  shows "topTweets (engagement_of a)
     = map to_top_tweet
         (take 5 (sort_desc (\<lambda>t. or0 (likes t)) (filter (\<lambda>t. \<not> isRetweet t) tweets)))"
proof (cases "tweets = []")
  case True
  with assms show ?thesis
    by (auto simp: generateAnalytics_def sort_desc_def)
next
  case False
  with assms show ?thesis
    by (auto simp: generateAnalytics_def Let_def slice0_def split: sum.splits)
qed

text \<open>
  Where the analysis returns (the empty list, and every list with a timestamp whose
  timestamps are valid time values), its top tweets are the first five of the posts that
  are not retweets in the stable descending order of their likes: there are \<open>min 5 n\<close>
  of them for \<open>n\<close> such posts, their likes do not increase, and \<open>ranked\<close>, of which
  they are the first five, is a rearrangement of those posts that keeps posts of equal
  likes in their input order.
\<close>

lemma topTweets_ranking:
  assumes "tweets = [] \<or> (\<exists>t\<in>set tweets. timestamp t \<noteq> None)"
    and "\<forall>t\<in>set tweets. \<forall>ms. timestamp t = Some ms \<longrightarrow> in_date_range ms"
  shows "\<exists>a. generateAnalytics pf tweets = Inr a
     \<and> length (topTweets (engagement_of a))
           = min 5 (length (filter (\<lambda>t. \<not> isRetweet t) tweets))
     \<and> sorted_wrt (\<lambda>x y. or0 (top_likes y) \<le> or0 (top_likes x))
         (topTweets (engagement_of a))
     \<and> (\<exists>ranked.
           mset ranked = mset (filter (\<lambda>t. \<not> isRetweet t) tweets)
         \<and> sorted_wrt (\<lambda>x y. or0 (likes y) \<le> or0 (likes x)) ranked
         \<and> (\<forall>k. filter (\<lambda>t. or0 (likes t) = k) ranked
                 = filter (\<lambda>t. or0 (likes t) = k) (filter (\<lambda>t. \<not> isRetweet t) tweets))
         \<and> topTweets (engagement_of a) = map to_top_tweet (take 5 ranked))"
proof -
  let ?e = "filter (\<lambda>t. \<not> isRetweet t) tweets"
  let ?r = "sort_desc (\<lambda>t. or0 (likes t)) ?e"
  from generateAnalytics_returns [OF assms] obtain a
    where a: "generateAnalytics pf tweets = Inr a" ..
  note top = topTweets_of_result [OF a]
  have srt: "sorted_wrt (\<lambda>x y. or0 (likes y) \<le> or0 (likes x)) ?r"
    by (rule sort_desc_sorted)
  then have "sorted_wrt (\<lambda>x y. or0 (likes y) \<le> or0 (likes x)) (take 5 ?r)"
    by (rule sorted_wrt_take)
  then have srt_top:
    "sorted_wrt (\<lambda>x y. or0 (top_likes y) \<le> or0 (top_likes x)) (topTweets (engagement_of a))"
    by (simp add: top sorted_wrt_map to_top_tweet_def)
  have len: "length (topTweets (engagement_of a)) = min 5 (length ?e)"
    by (simp add: top sort_desc_length min.commute)
  have "mset ?r = mset ?e
     \<and> sorted_wrt (\<lambda>x y. or0 (likes y) \<le> or0 (likes x)) ?r
     \<and> (\<forall>k. filter (\<lambda>t. or0 (likes t) = k) ?r = filter (\<lambda>t. or0 (likes t) = k) ?e)
     \<and> topTweets (engagement_of a) = map to_top_tweet (take 5 ?r)"
    using srt top by (simp add: sort_desc_mset sort_desc_stable)
  then have "\<exists>ranked. mset ranked = mset ?e
     \<and> sorted_wrt (\<lambda>x y. or0 (likes y) \<le> or0 (likes x)) ranked
     \<and> (\<forall>k. filter (\<lambda>t. or0 (likes t) = k) ranked = filter (\<lambda>t. or0 (likes t) = k) ?e)
     \<and> topTweets (engagement_of a) = map to_top_tweet (take 5 ranked)"
    by blast
  with a len srt_top show ?thesis
    by blast
qed

text \<open>
  C6. For every list the top tweets are to be \<open>min 5 n\<close> of the \<open>n\<close> posts that are not
  retweets. The code gives none for one such post without a timestamp: the time range
  raises a \<open>RangeError\<close> and no result, so no list of one top tweet, is returned.
\<close>

theorem generateAnalytics_topTweets_raises:
  "generateAnalytics sample_platform [sample_post ''1'' None False (Some 3) None]
     = Inl RangeError
   \<and> min 5 (length (filter (\<lambda>t. \<not> isRetweet t)
                [sample_post ''1'' None False (Some 3) None])) = 1"
  by (simp add: generateAnalytics_def Let_def sample_post_def List.map_filter_simps
      first_elem_def new_Date_def format_date_def)

section \<open>Properties of the merge\<close>

lemma load_accounts_concat:
  assumes "map (getTweetsForAccount store) accounts = map Inr per_account"
  shows "load_accounts store accounts acc = Inr (acc @ concat per_account)"
  using assms
proof (induction accounts arbitrary: acc per_account)
  case Nil
  then show ?case
    by simp
next
  case (Cons a accounts)
  from Cons.prems obtain ts rest where pa: "per_account = ts # rest"
    and a: "getTweetsForAccount store a = Inr ts"
    and r: "map (getTweetsForAccount store) accounts = map Inr rest"
    by (cases per_account) auto
  from Cons.IH [OF r] show ?case
    by (simp add: a pa)
qed

text \<open>What \<open>saveTweets\<close> does with the list it is given.\<close>

lemma saveTweets_written:
  "write_error this RawTweets = None \<Longrightarrow>
     written_tweets (snd (saveTweets pf this tweets)) = Some tweets"
  by (simp add: saveTweets_def Let_def split: option.splits sum.splits)

lemma saveTweets_returns:
  assumes "\<forall>a. write_error this a = None"
  shows "fst (saveTweets pf this tweets) = generateAnalytics pf tweets"
  using assms by (simp add: saveTweets_def Let_def split: option.splits sum.splits)

lemma saveTweets_raises:
  assumes "generateAnalytics pf tweets = Inl e"
    and "write_error this RawTweets = None" and "write_error this RawUrls = None"
  shows "saveTweets pf this tweets
     = (Inl e,
        [WriteRawTweets tweets,
         WriteRawUrls (map (\<lambda>t. case permanentUrl t of None \<Rightarrow> [] | Some l \<Rightarrow> l) tweets)])"
  using assms by (simp add: saveTweets_def Let_def comp_def)

text \<open>The list that the merge hands to \<open>saveTweets\<close> when every account loads.\<close>

lemma createMergedCharacter_loaded:
  assumes "map (getTweetsForAccount store) accounts = map Inr per_account"
  shows "createMergedCharacter pf this store accounts options =
     (case saveTweets pf this
        (slice0
           (sort_desc (\<lambda>t. or0 (likes t) + or0 (retweetCount t))
              (if excludeRetweets options then filter (\<lambda>t. \<not> isRetweet t) (concat per_account)
               else concat per_account))
           (case tweetsPerAccount options of None \<Rightarrow> 50 | Some n \<Rightarrow> if n = 0 then 50 else n)) of
        (Inl e, written) \<Rightarrow> (Inl e, written)
      | (Inr analytics, written) \<Rightarrow> (Inr (), written))"
  using load_accounts_concat [OF assms, of "[]"]
  by (simp add: createMergedCharacter_def Let_def)

lemma saved_writes:
  "snd (case r of (Inl e, written) \<Rightarrow> (Inl e, written)
        | (Inr analytics, written) \<Rightarrow> (Inr (), written)) = snd r"
  for r :: "(js_error + analytics) \<times> file_write list"
  by (simp split: prod.splits sum.splits)

lemma saved_result:
  "fst (case r of (Inl e, written) \<Rightarrow> (Inl e, written)
        | (Inr analytics, written) \<Rightarrow> (Inr (), written))
     = (case fst r of Inl e \<Rightarrow> Inl e | Inr analytics \<Rightarrow> Inr ())"
  for r :: "(js_error + analytics) \<times> file_write list"
  by (simp split: prod.splits sum.splits)

text \<open>
  Whatever the ranking method, the merge ranks by likes plus retweets: the option is
  never read.
\<close>

lemma createMergedCharacter_ignores_rankingMethod:
  "createMergedCharacter pf this store accounts (options\<lparr>rankingMethod := m\<rparr>)
     = createMergedCharacter pf this store accounts options"
  by (simp add: createMergedCharacter_def split: sum.splits)

lemma createMergedCharacter_total_engagement:
  assumes "map (getTweetsForAccount store) accounts = map Inr per_account"
  shows "\<exists>ranked.
      mset ranked
        = mset (if excludeRetweets options then filter (\<lambda>t. \<not> isRetweet t) (concat per_account)
                else concat per_account)
    \<and> sorted_wrt
        (\<lambda>x y. or0 (likes y) + or0 (retweetCount y) \<le> or0 (likes x) + or0 (retweetCount x))
        ranked
    \<and> (\<forall>k. filter (\<lambda>t. or0 (likes t) + or0 (retweetCount t) = k) ranked
          = filter (\<lambda>t. or0 (likes t) + or0 (retweetCount t) = k)
              (if excludeRetweets options then filter (\<lambda>t. \<not> isRetweet t) (concat per_account)
               else concat per_account))
    \<and> snd (createMergedCharacter pf this store accounts options)
        = snd (saveTweets pf this (slice0 ranked
            (case tweetsPerAccount options of None \<Rightarrow> 50 | Some n \<Rightarrow> if n = 0 then 50 else n)))"
  unfolding createMergedCharacter_loaded [OF assms, of pf this options] saved_writes
  using sort_desc_sorted [of "\<lambda>t. or0 (likes t) + or0 (retweetCount t)"]
    sort_desc_stable [of "\<lambda>t. or0 (likes t) + or0 (retweetCount t)"]
    sort_desc_mset [of "\<lambda>t. or0 (likes t) + or0 (retweetCount t)"]
  by blast

text \<open>The analysis of the two sample posts returns.\<close>

lemma sample_analytics_returns:
  "\<exists>a. generateAnalytics sample_platform
       [sample_post ''a1'' (Some 1700000000000) False (Some 1) (Some 10),
        sample_post ''b1'' (Some 1700000001000) False (Some 5) (Some 0)] = Inr a"
  by (rule generateAnalytics_returns) (simp_all add: sample_post_def in_date_range_def)


lemma sample_post_fields:
  "isRetweet (sample_post i ts rt l r) = rt" "timestamp (sample_post i ts rt l r) = ts"
  by (simp_all add: sample_post_def)

lemma sample_store_loads:
  "map (getTweetsForAccount sample_store) [''a'', ''b'']
     = map Inr [[sample_post ''a1'' (Some 1700000000000) False (Some 1) (Some 10)],
                [sample_post ''b1'' (Some 1700000001000) False (Some 5) (Some 0)]]"
  by (simp add: getTweetsForAccount_def sample_store_def)

lemma sample_ranking:
  "sort_desc (\<lambda>t. or0 (likes t) + or0 (retweetCount t))
       [sample_post ''a1'' (Some 1700000000000) False (Some 1) (Some 10),
        sample_post ''b1'' (Some 1700000001000) False (Some 5) (Some 0)]
     = [sample_post ''a1'' (Some 1700000000000) False (Some 1) (Some 10),
        sample_post ''b1'' (Some 1700000001000) False (Some 5) (Some 0)]"
  by (simp add: sort_desc_def sample_post_def or0_def)

text \<open>
  C1. The claim that the merge scores by the policy's ranking method does not hold of the
  code. Account \<open>a\<close> holds a post of 1 like and 10 retweets, account \<open>b\<close> one of 5 likes
  and no retweet; ranked by likes only the second comes first, but the merge, which
  completes, writes the first first, by its 11 likes plus retweets.
\<close>

theorem createMergedCharacter_likes_only:
  "fst (createMergedCharacter sample_platform sample_organizer sample_store [''a'', ''b'']
         \<lparr> tweetsPerAccount = Some 10, excludeRetweets = True, rankingMethod = LikesOnly \<rparr>)
     = Inr ()
   \<and> written_tweets
       (snd (createMergedCharacter sample_platform sample_organizer sample_store [''a'', ''b'']
          \<lparr> tweetsPerAccount = Some 10, excludeRetweets = True, rankingMethod = LikesOnly \<rparr>))
     = Some [sample_post ''a1'' (Some 1700000000000) False (Some 1) (Some 10),
             sample_post ''b1'' (Some 1700000001000) False (Some 5) (Some 0)]"
proof -
  have w: "\<forall>a. write_error sample_organizer a = None"
    by (simp add: sample_organizer_def)
  from sample_analytics_returns obtain a where
    a: "generateAnalytics sample_platform
       [sample_post ''a1'' (Some 1700000000000) False (Some 1) (Some 10),
        sample_post ''b1'' (Some 1700000001000) False (Some 5) (Some 0)] = Inr a"
    by blast
  show ?thesis
    unfolding createMergedCharacter_loaded [OF sample_store_loads] saved_writes saved_result
    using w a
    by (simp add: sample_post_fields sample_ranking slice0_def saveTweets_written
        saveTweets_returns)
qed




text \<open>
  A merge that does not complete: when no post of the merged list has a timestamp, the
  tweets and their URLs are written and then the error of the analysis is raised.
\<close>

lemma createMergedCharacter_raises:
  assumes "map (getTweetsForAccount store) accounts = map Inr per_account"
    and "\<forall>a. write_error this a = None"
    and "generateAnalytics pf
       (slice0
           (sort_desc (\<lambda>t. or0 (likes t) + or0 (retweetCount t))
              (if excludeRetweets options then filter (\<lambda>t. \<not> isRetweet t) (concat per_account)
               else concat per_account))
           (case tweetsPerAccount options of None \<Rightarrow> 50 | Some n \<Rightarrow> if n = 0 then 50 else n))
       = Inl e"
  shows "fst (createMergedCharacter pf this store accounts options) = Inl e"
  unfolding createMergedCharacter_loaded [OF assms(1)] saved_result
  using assms(2,3) by (simp add: saveTweets_returns)

section \<open>Properties of the normaliser\<close>

lemma track_dates_counters:
  "requestCount (track_dates d st) = requestCount st"
  "rateLimitHits (track_dates d st) = rateLimitHits st"
  "retriesCount (track_dates d st) = retriesCount st"
  "uniqueTweets (track_dates d st) = uniqueTweets st"
  "fallbackCount (track_dates d st) = fallbackCount st"
  "fallbackUsed (track_dates d st) = fallbackUsed st"
  by (simp_all add: track_dates_def Let_def split: option.splits)

lemma processTweetData_counters:
  assumes "processTweetData pf name st arg = (r, st')"
  shows "requestCount st' = requestCount st \<and> rateLimitHits st' = rateLimitHits st
     \<and> retriesCount st' = retriesCount st \<and> uniqueTweets st' = uniqueTweets st
     \<and> fallbackCount st' = fallbackCount st \<and> fallbackUsed st' = fallbackUsed st"
  using assms
  by (auto simp: processTweetData_def Let_def track_dates_counters
      split: option.splits if_splits jsdate.splits)






text \<open>
  Timestamps that are strings of digits. The string \<open>'1700000000'\<close> is below \<open>10^12\<close>
  as a number and is multiplied, which makes a number of it: a post is returned. The
  string \<open>'1700000000000'\<close> is kept as it is, \<open>new Date\<close> of that string is not a valid
  date, and \<open>null\<close> is returned.
\<close>

lemma processTweetData_string_of_seconds:
  "\<exists>p. fst (processTweetData sample_platform ''alice'' (pipeline_stats sample_pipeline)
         (Some (sample_raw (Some ''1'')
                  (TsOther True (Some (Finite 1700000000)) InvalidDate) None))) = Some p
       \<and> timestamp p = TsNumber 1700000000000"
  by (simp add: processTweetData_def derived_timestamp_def sample_raw_def falsy_ts_def
      falsy_string_def Let_def new_Date_def in_date_range_def to_number_def less_1e12_def
      times_1000_def is_NaN_def le_0_def date_of_def)

lemma processTweetData_string_of_milliseconds:
  "fst (processTweetData sample_platform ''alice'' (pipeline_stats sample_pipeline)
         (Some (sample_raw (Some ''1'')
                  (TsOther True (Some (Finite 1700000000000)) InvalidDate) None))) = None"
  by (simp add: processTweetData_def derived_timestamp_def sample_raw_def falsy_ts_def
      falsy_string_def Let_def to_number_def less_1e12_def is_NaN_def le_0_def date_of_def)

section \<open>Properties of the collector\<close>

lemma make_config_defaults:
  "make_config (\<lambda>v. None) =
     \<lparr> maxTweets = 50000, maxRetries = 5, retryDelay = 5000, minDelayBetweenRequests = 1000,
       maxDelayBetweenRequests = 3000, rateLimitThreshold = 3 \<rparr>"
  by (simp add: make_config_def env_or_def)

lemma collect_loop_raises:
  "\<exists>st'. collect_loop pf incl name (map Inr yielded @ Inl e # rest) st acc = (Inl e, st')
     \<and> requestCount st' = requestCount st + length yielded
     \<and> rateLimitHits st' = rateLimitHits st
     \<and> retriesCount st' = retriesCount st
     \<and> fallbackCount st' = fallbackCount st
     \<and> fallbackUsed st' = fallbackUsed st"
proof (induction yielded arbitrary: st acc)
  case Nil
  then show ?case
    by simp
next
  case (Cons tweet yielded)
  let ?st1 = "st\<lparr>requestCount := requestCount st + 1\<rparr>"
  show ?case
  proof (cases "incl tweet")
    case False
    with Cons.IH [of ?st1 acc] show ?thesis
      by (auto simp: Let_def)
  next
    case True
    obtain r st2 where r: "processTweetData pf name ?st1 tweet = (r, st2)"
      by (cases "processTweetData pf name ?st1 tweet")
    note c = processTweetData_counters [OF r]
    show ?thesis
    proof (cases r)
      case None
      with Cons.IH [of st2 acc] True r c show ?thesis
        by (auto simp: Let_def)
    next
      case (Some p)
      with Cons.IH [of "st2\<lparr>uniqueTweets := uniqueTweets st2 + 1\<rparr>" "acc @ [p]"] True r c
      show ?thesis
        by (auto simp: Let_def)
    qed
  qed
qed

text \<open>
  C2, as amended. When the iterator raises, a rate limit included, after yielding some
  records, \<open>collectTweets\<close> re-raises that error at once: each yielded record has been
  counted once (nothing is fetched again), and the rate-limit, retry and fallback
  counters and the fallback cluster are as they were, whatever the configured retries,
  delay, threshold and fallback flag.
\<close>

theorem collectTweets_reraises:
  assumes "build_query pf (this_username p) fromDateObj toDateObj = Inr q"
    and "searchTweets q (maxTweets (config p)) = map Inr yielded @ Inl e # rest"
  shows "\<exists>st'. collectTweets pf incl searchTweets p fromDateObj toDateObj
                 = (Inl e, p\<lparr>pipeline_stats := st'\<rparr>)
     \<and> requestCount st' = requestCount (pipeline_stats p) + length yielded
     \<and> rateLimitHits st' = rateLimitHits (pipeline_stats p)
     \<and> retriesCount st' = retriesCount (pipeline_stats p)
     \<and> fallbackCount st' = fallbackCount (pipeline_stats p)
     \<and> fallbackUsed st' = fallbackUsed (pipeline_stats p)
     \<and> cluster_launched (p\<lparr>pipeline_stats := st'\<rparr>) = cluster_launched p"
proof -
  from collect_loop_raises [of pf incl "this_username p" yielded e rest "pipeline_stats p" "[]"]
  obtain st' where
    "collect_loop pf incl (this_username p) (map Inr yielded @ Inl e # rest) (pipeline_stats p) []
       = (Inl e, st')"
    "requestCount st' = requestCount (pipeline_stats p) + length yielded"
    "rateLimitHits st' = rateLimitHits (pipeline_stats p)"
    "retriesCount st' = retriesCount (pipeline_stats p)"
    "fallbackCount st' = fallbackCount (pipeline_stats p)"
    "fallbackUsed st' = fallbackUsed (pipeline_stats p)"
    by blast
  then show ?thesis
    using assms by (intro exI [of _ st']) (simp add: collectTweets_def)
qed

theorem collectTweets_reraises_witness:
  "\<exists>st'. collectTweets sample_platform (\<lambda>t. True)
       (\<lambda>q n. [Inr (Some (sample_raw (Some ''1'') (TsNumber 1700000000) None)),
                Inl (ApiError 429)])
       sample_pipeline None None
     = (Inl (ApiError 429), sample_pipeline\<lparr>pipeline_stats := st'\<rparr>)
     \<and> requestCount st' = 1 \<and> rateLimitHits st' = 0"
  using collectTweets_reraises [of sample_platform sample_pipeline None None
      "''from:alice''"
      "(\<lambda>q n. [Inr (Some (sample_raw (Some ''1'') (TsNumber 1700000000) None)),
                Inl (ApiError 429)])"
      "[Some (sample_raw (Some ''1'') (TsNumber 1700000000) None)]" "ApiError 429" "[]"
      "\<lambda>t. True"]
  by (simp add: build_query_def sample_pipeline_def new_pipeline_def) blast

text \<open>
  The claim as stated fails at the first rate-limit signal: with the default
  configuration (five retries, fallback enabled) the collection fails with that error,
  the pipeline is unchanged and \<open>rateLimitHits\<close> is still 0.
\<close>

theorem collectTweets_rate_limit:
  "collectTweets sample_platform (\<lambda>t. True) (\<lambda>q n. [Inl (ApiError 429)]) sample_pipeline
       None None
     = (Inl (ApiError 429), sample_pipeline)
   \<and> rateLimitHits (pipeline_stats sample_pipeline) = 0
   \<and> fallback_enabled sample_pipeline
   \<and> cluster_launched sample_pipeline = False
   \<and> maxRetries (config sample_pipeline) = 5"
  by (simp add: collectTweets_def build_query_def sample_pipeline_def new_pipeline_def
      make_config_def env_or_def)

section \<open>Properties of the cleanup\<close>

text \<open>The cleanup of the failure path writes the terminal progress record.\<close>

lemma pipeline_cleanup_completed:
  "\<exists>r. progress_file (snd (pipeline_cleanup p w)) = Some r \<and> completed (progress r)"
  by (simp add: pipeline_cleanup_def saveProgress_def split: option.splits)

text \<open>
  C8. The claim that a termination signal still yields a progress record with
  \<open>completed = true\<close> does not hold of the code: the signal handler leaves the progress
  file as it was (absent, when the run has not written one), does not close the fallback
  cluster, and exits with code 0.
\<close>

theorem signal_cleanup_writes_no_progress:
  "progress_file (signal_cleanup w) = progress_file w
   \<and> exit_code (signal_cleanup w) = Some 0
   \<and> map_option cluster_launched (current_pipeline (signal_cleanup w))
       = map_option cluster_launched (current_pipeline w)"
  by (simp add: signal_cleanup_def split: option.splits)

section \<open>Properties of the fine-tuning extraction\<close>

subsection \<open>Replacing all matches\<close>

declare replace_all.simps(2) [simp del]

lemma replace_all_none:
  "m (c # cs) = None \<Longrightarrow> replace_all m rep (c # cs) = c # replace_all m rep cs"
  by (simp add: replace_all.simps(2))

lemma replace_all_some:
  "m (c # cs) = Some rest \<Longrightarrow> length rest \<le> length cs \<Longrightarrow>
     replace_all m rep (c # cs) = rep @ replace_all m rep rest"
  by (simp add: replace_all.simps(2))

lemma has_match_iff: "has_match m s \<longleftrightarrow> (\<exists>t. suffix t s \<and> m t \<noteq> None)"
  by (induction s) (auto simp: suffix_Cons)

lemma has_match_suffix: "suffix t s \<Longrightarrow> has_match m t \<Longrightarrow> has_match m s"
  unfolding has_match_iff using suffix_order.trans by blast

lemma replace_all_no_match: "\<not> has_match m s \<Longrightarrow> replace_all m rep s = s"
  by (induction s) (auto simp: replace_all_none)

lemma token_matcher_space:
  "token_matcher m \<Longrightarrow> is_space c \<Longrightarrow> m (c # cs) = None"
  unfolding token_matcher_def
  by (metis takeWhile.simps(2))

lemma token_matcher_token:
  assumes "token_matcher m"
    and "takeWhile (\<lambda>c. \<not> is_space c) s = takeWhile (\<lambda>c. \<not> is_space c) s'"
    and "m s \<noteq> None"
  shows "m s' \<noteq> None"
proof -
  from assms(1,3) have "m (takeWhile (\<lambda>c. \<not> is_space c) s) \<noteq> None"
    unfolding token_matcher_def by blast
  moreover have "prefix (takeWhile (\<lambda>c. \<not> is_space c) s') s'"
    by (metis prefixI takeWhile_dropWhile_id)
  ultimately show ?thesis
    using assms(1,2) unfolding token_matcher_def by metis
qed

lemma token_matcher_prefix_token:
  assumes "token_matcher m"
    and "prefix (takeWhile (\<lambda>c. \<not> is_space c) s) (takeWhile (\<lambda>c. \<not> is_space c) s')"
    and "m s \<noteq> None"
  shows "m s' \<noteq> None"
proof -
  from assms(1,3) have "m (takeWhile (\<lambda>c. \<not> is_space c) s) \<noteq> None"
    unfolding token_matcher_def by blast
  with assms(1,2) have "m (takeWhile (\<lambda>c. \<not> is_space c) s') \<noteq> None"
    unfolding token_matcher_def by blast
  moreover have "prefix (takeWhile (\<lambda>c. \<not> is_space c) s') s'"
    by (metis prefixI takeWhile_dropWhile_id)
  ultimately show ?thesis
    using assms(1) unfolding token_matcher_def by blast
qed

lemma replace_all_keep:
  "m (c # cs) = None \<or> (\<exists>rest. m (c # cs) = Some rest \<and> \<not> length rest < length (c # cs))
     \<Longrightarrow> replace_all m rep (c # cs) = c # replace_all m rep cs"
  by (auto simp: replace_all.simps(2))

lemma replace_all_preserves_no_match:
  assumes pt: "\<And>s. m (replace_all m' rep s) \<noteq> None \<Longrightarrow> m s \<noteq> None"
    and sh: "\<And>s rest. m' s = Some rest \<Longrightarrow> suffix rest s"
    and rp: "\<And>z. has_match m (rep @ z) \<Longrightarrow> has_match m z"
  shows "has_match m (replace_all m' rep y) \<Longrightarrow> has_match m y"
proof (induction "length y" arbitrary: y rule: less_induct)
  case less
  show ?case
  proof (cases y)
    case Nil
    with less.prems show ?thesis by simp
  next
    case (Cons c cs)
    show ?thesis
    proof (cases "\<exists>rest. m' y = Some rest \<and> length rest < length y")
      case True
      then obtain rest where r: "m' y = Some rest" "length rest < length y" by blast
      with Cons have "replace_all m' rep y = rep @ replace_all m' rep rest"
        by (simp add: replace_all_some)
      with less.prems have "has_match m (replace_all m' rep rest)"
        using rp by simp
      with less.hyps [OF r(2)] have "has_match m rest" .
      with sh [OF r(1)] show ?thesis by (rule has_match_suffix)
    next
      case False
      with Cons have eq: "replace_all m' rep y = c # replace_all m' rep cs"
        by (cases "m' y") (auto simp: replace_all_keep)
      with less.prems have "m (replace_all m' rep y) \<noteq> None \<or> has_match m (replace_all m' rep cs)"
        by auto
      then show ?thesis
      proof
        assume "m (replace_all m' rep y) \<noteq> None"
        then have "m y \<noteq> None" by (rule pt)
        then show ?thesis by (cases y) auto
      next
        assume "has_match m (replace_all m' rep cs)"
        with less.hyps [of cs] Cons have "has_match m cs" by simp
        with Cons show ?thesis by simp
      qed
    qed
  qed
qed

lemma replace_all_kills_matches:
  assumes pt: "\<And>s. m (replace_all m [] s) \<noteq> None \<Longrightarrow> m s \<noteq> None"
    and e: "m [] = None"
    and sh: "\<And>s rest. m s = Some rest \<Longrightarrow> length rest < length s"
  shows "\<not> has_match m (replace_all m [] y)"
proof (induction "length y" arbitrary: y rule: less_induct)
  case less
  show ?case
  proof (cases y)
    case Nil
    with e show ?thesis by simp
  next
    case (Cons c cs)
    show ?thesis
    proof (cases "m y")
      case None
      with Cons have eq: "replace_all m [] y = c # replace_all m [] cs"
        by (simp add: replace_all_none)
      have "m (replace_all m [] y) = None"
      proof (rule ccontr)
        assume "m (replace_all m [] y) \<noteq> None"
        then have "m y \<noteq> None" by (rule pt)
        with None show False by simp
      qed
      moreover have "\<not> has_match m (replace_all m [] cs)"
        using less.hyps [of cs] Cons by simp
      ultimately show ?thesis
        using eq by simp
    next
      case (Some rest)
      from sh [OF Some] have l: "length rest < length y" .
      with Some Cons have "replace_all m [] y = replace_all m [] rest"
        by (simp add: replace_all_some)
      with less.hyps [OF l] show ?thesis by simp
    qed
  qed
qed


subsection \<open>The three expressions\<close>

lemma url_literals [simp]:
  "ascii ''https://'' = [104, 116, 116, 112, 115, 58, 47, 47]"
  "ascii ''http://'' = [104, 116, 116, 112, 58, 47, 47]"
  "ascii ''www.'' = [119, 119, 119, 46]"
  by (simp_all add: ascii_def)

lemma non_space_run_Some:
  "non_space_run r = Some rest \<longleftrightarrow>
     r \<noteq> [] \<and> \<not> is_space (hd r) \<and> rest = dropWhile (\<lambda>c. \<not> is_space c) r"
  by (auto simp: non_space_run_def takeWhile_eq_Nil_iff)

lemma non_space_run_None: "non_space_run r = None \<longleftrightarrow> r = [] \<or> is_space (hd r)"
  by (auto simp: non_space_run_def takeWhile_eq_Nil_iff)

lemma match_url_iff:
  "match_url s \<noteq> None \<longleftrightarrow>
     (\<exists>x r. \<not> is_space x
        \<and> (s = ascii ''https://'' @ x # r \<or> s = ascii ''http://'' @ x # r \<or> s = ascii ''www.'' @ x # r))"
proof
  assume "match_url s \<noteq> None"
  then consider r where "s = ascii ''https://'' @ r" "non_space_run r \<noteq> None"
    | r where "s = ascii ''http://'' @ r" "non_space_run r \<noteq> None"
    | r where "s = ascii ''www.'' @ r" "non_space_run r \<noteq> None"
    by (auto simp: match_url_def prefix_def split: if_splits)
  then show "\<exists>x r. \<not> is_space x
        \<and> (s = ascii ''https://'' @ x # r \<or> s = ascii ''http://'' @ x # r \<or> s = ascii ''www.'' @ x # r)"
  proof cases
    case 1
    then show ?thesis by (cases r) (auto simp: non_space_run_None)
  next
    case 2
    then show ?thesis by (cases r) (auto simp: non_space_run_None)
  next
    case 3
    then show ?thesis by (cases r) (auto simp: non_space_run_None)
  qed
next
  assume "\<exists>x r. \<not> is_space x
        \<and> (s = ascii ''https://'' @ x # r \<or> s = ascii ''http://'' @ x # r \<or> s = ascii ''www.'' @ x # r)"
  then show "match_url s \<noteq> None"
    by (auto simp: match_url_def non_space_run_Some)
qed

lemma match_url_rest:
  assumes "match_url s = Some rest"
  shows "suffix rest s \<and> length rest < length s \<and> (rest = [] \<or> is_space (hd rest))"
proof -
  from assms have "\<exists>k. non_space_run (drop k s) = Some rest"
    by (auto simp: match_url_def split: if_splits)
  then obtain k where k: "non_space_run (drop k s) = Some rest" ..
  then have r: "drop k s \<noteq> []" "rest = dropWhile (\<lambda>c. \<not> is_space c) (drop k s)"
    "\<not> is_space (hd (drop k s))"
    by (auto simp: non_space_run_Some)
  have "suffix rest (drop k s)"
    unfolding r(2) by (rule suffix_dropWhile)
  then have s1: "suffix rest s"
    using suffix_drop suffix_order.trans by blast
  have "length rest < length (drop k s)"
    unfolding r(2) using r(1,3) by (cases "drop k s") (auto simp: length_dropWhile_le le_imp_less_Suc)
  then have s2: "length rest < length s" by simp
  have "rest = [] \<or> is_space (hd rest)"
    unfolding r(2) using hd_dropWhile [of "\<lambda>c. \<not> is_space c" "drop k s"] by auto
  with s1 s2 show ?thesis by simp
qed

lemma url_chars_non_space:
  "\<not> is_space 104" "\<not> is_space 116" "\<not> is_space 112" "\<not> is_space 115"
  "\<not> is_space 58" "\<not> is_space 47" "\<not> is_space 119" "\<not> is_space 46"
  "\<not> is_space 35" "is_space 32"
  by (simp_all add: is_space_def)

lemma token_matcher_url: "token_matcher match_url"
  unfolding token_matcher_def
proof (intro conjI allI impI)
  show "match_url [] = None" by (simp add: match_url_def)
next
  fix s assume "match_url s \<noteq> None"
  then obtain x r where "\<not> is_space x"
    "s = ascii ''https://'' @ x # r \<or> s = ascii ''http://'' @ x # r \<or> s = ascii ''www.'' @ x # r"
    unfolding match_url_iff by blast
  then show "match_url (takeWhile (\<lambda>c. \<not> is_space c) s) \<noteq> None"
    unfolding match_url_iff by (auto simp: url_chars_non_space)
next
  fix t t' :: js_string assume "prefix t t'" "match_url t \<noteq> None"
  then show "match_url t' \<noteq> None"
    unfolding match_url_iff by (auto simp: prefix_def)
next
  fix s rest assume "match_url s = Some rest"
  then show "suffix rest s" "length rest < length s"
    using match_url_rest by blast+
qed


lemma match_hashtag_iff:
  "match_hashtag s \<noteq> None \<longleftrightarrow>
     (\<exists>x r. s = 35 # x # r \<and> \<not> is_space x \<and> x \<noteq> 35)"
proof (cases s)
  case Nil
  then show ?thesis by (simp add: match_hashtag_def)
next
  case (Cons c r)
  then show ?thesis
    by (cases r) (auto simp: match_hashtag_def)
qed

lemma match_hashtag_rest:
  assumes "match_hashtag s = Some rest"
  shows "suffix rest s \<and> length rest < length s
     \<and> (rest = [] \<or> is_space (hd rest) \<or> hd rest = 35)"
proof -
  from assms obtain r where s: "s = 35 # r"
    and rest: "rest = dropWhile (\<lambda>c. \<not> is_space c \<and> c \<noteq> 35) r"
    by (cases s) (auto simp: match_hashtag_def split: if_splits)
  have "suffix rest r"
    unfolding rest by (rule suffix_dropWhile)
  then have s1: "suffix rest s"
    unfolding s by (simp add: suffix_Cons)
  have s2: "length rest < length s"
    unfolding rest s by (simp add: length_dropWhile_le le_imp_less_Suc)
  have "rest = [] \<or> is_space (hd rest) \<or> hd rest = 35"
    unfolding rest
    using hd_dropWhile [of "\<lambda>c. \<not> is_space c \<and> c \<noteq> 35" r] by auto
  with s1 s2 show ?thesis by simp
qed

lemma token_matcher_hashtag: "token_matcher match_hashtag"
  unfolding token_matcher_def
proof (intro conjI allI impI)
  show "match_hashtag [] = None" by (simp add: match_hashtag_def)
next
  fix s assume "match_hashtag s \<noteq> None"
  then show "match_hashtag (takeWhile (\<lambda>c. \<not> is_space c) s) \<noteq> None"
    unfolding match_hashtag_iff by (auto simp: url_chars_non_space)
next
  fix t t' :: js_string assume "prefix t t'" "match_hashtag t \<noteq> None"
  then show "match_hashtag t' \<noteq> None"
    unfolding match_hashtag_iff by (auto simp: prefix_def)
next
  fix s rest assume "match_hashtag s = Some rest"
  then show "suffix rest s" "length rest < length s"
    using match_hashtag_rest by blast+
qed

lemma match_spaces_None: "match_spaces s = None \<longleftrightarrow> s = [] \<or> \<not> is_space (hd s)"
  by (auto simp: match_spaces_def takeWhile_eq_Nil_iff)

lemma match_spaces_rest:
  assumes "match_spaces s = Some rest"
  shows "rest = dropWhile is_space s \<and> suffix rest s \<and> length rest < length s
     \<and> (rest = [] \<or> \<not> is_space (hd rest)) \<and> s \<noteq> [] \<and> is_space (hd s)"
proof -
  from assms have rest: "rest = dropWhile is_space s" and ne: "s \<noteq> []" "is_space (hd s)"
    by (auto simp: match_spaces_def takeWhile_eq_Nil_iff split: if_splits)
  have s1: "suffix rest s"
    unfolding rest by (rule suffix_dropWhile)
  have s2: "length rest < length s"
    unfolding rest using ne by (cases s) (auto simp: length_dropWhile_le le_imp_less_Suc)
  have "rest = [] \<or> \<not> is_space (hd rest)"
    unfolding rest using hd_dropWhile [of is_space s] by auto
  with rest s1 s2 ne show ?thesis by simp
qed

subsection \<open>Stripping URLs\<close>

text \<open>White space is kept by a replacement whose matches lie within a token.\<close>

lemma replace_all_space:
  "token_matcher m \<Longrightarrow> is_space w \<Longrightarrow>
     replace_all m rep (w # r) = w # replace_all m rep r"
  by (simp add: replace_all_none token_matcher_space)

lemma replace_all_space_head:
  assumes "token_matcher m" and "s = [] \<or> is_space (hd s)"
  shows "takeWhile (\<lambda>c. \<not> is_space c) (replace_all m rep s) = []"
  using assms by (cases s) (auto simp: replace_all_space)

lemma strip_urls_first_token:
  "prefix (takeWhile (\<lambda>c. \<not> is_space c) (replace_all match_url [] s))
     (takeWhile (\<lambda>c. \<not> is_space c) s)"
proof (induction "length s" arbitrary: s rule: less_induct)
  case less
  show ?case
  proof (cases s)
    case Nil
    then show ?thesis by simp
  next
    case (Cons c cs)
    show ?thesis
    proof (cases "match_url s")
      case None
      with Cons have eq: "replace_all match_url [] s = c # replace_all match_url [] cs"
        by (simp add: replace_all_none)
      from less [of cs] Cons show ?thesis
        unfolding eq by simp
    next
      case (Some rest)
      from match_url_rest [OF Some] have r: "length rest < length s" "rest = [] \<or> is_space (hd rest)"
        by simp_all
      with Some Cons have "replace_all match_url [] s = replace_all match_url [] rest"
        by (simp add: replace_all_some)
      with replace_all_space_head [OF token_matcher_url r(2), of "[]"] show ?thesis
        by simp
    qed
  qed
qed

lemma strip_urls_pointwise:
  "match_url (replace_all match_url [] s) \<noteq> None \<Longrightarrow> match_url s \<noteq> None"
  using token_matcher_prefix_token [OF token_matcher_url strip_urls_first_token] .

lemma strip_urls_no_url: "\<not> has_match match_url (replace_all match_url [] s)"
proof (rule replace_all_kills_matches)
  show "\<And>s. match_url (replace_all match_url [] s) \<noteq> None \<Longrightarrow> match_url s \<noteq> None"
    by (rule strip_urls_pointwise)
  show "match_url [] = None"
    by (simp add: match_url_def)
  show "\<And>s rest. match_url s = Some rest \<Longrightarrow> length rest < length s"
    using match_url_rest by blast
qed

subsection \<open>Stripping hashtags\<close>

lemma strip_hashtags_break:
  "r = [] \<or> is_space (hd r) \<or> hd r = 35 \<Longrightarrow>
     replace_all match_hashtag [] r = []
     \<or> is_space (hd (replace_all match_hashtag [] r))
     \<or> hd (replace_all match_hashtag [] r) = 35"
proof (induction "length r" arbitrary: r rule: less_induct)
  case less
  show ?case
  proof (cases r)
    case Nil
    then show ?thesis by simp
  next
    case (Cons w r')
    show ?thesis
    proof (cases "match_hashtag r")
      case None
      with Cons have "replace_all match_hashtag [] r = w # replace_all match_hashtag [] r'"
        by (simp add: replace_all_none)
      with less.prems Cons show ?thesis by simp
    next
      case (Some rest)
      from match_hashtag_rest [OF Some]
      have r: "length rest < length r" "rest = [] \<or> is_space (hd rest) \<or> hd rest = 35"
        by simp_all
      with Some Cons have "replace_all match_hashtag [] r = replace_all match_hashtag [] rest"
        by (simp add: replace_all_some)
      with less.hyps [OF r] show ?thesis by simp
    qed
  qed
qed

lemma strip_hashtags_head:
  assumes "replace_all match_hashtag [] s = x # t" and "\<not> is_space x" and "x \<noteq> 35"
  shows "\<exists>cs. s = x # cs \<and> replace_all match_hashtag [] cs = t"
proof (cases s)
  case Nil
  with assms(1) show ?thesis by simp
next
  case (Cons c cs)
  show ?thesis
  proof (cases "match_hashtag s")
    case None
    with Cons assms(1) show ?thesis
      by (simp add: replace_all_none)
  next
    case (Some rest)
    from match_hashtag_rest [OF Some]
    have r: "length rest < length s" "rest = [] \<or> is_space (hd rest) \<or> hd rest = 35"
      by simp_all
    with Some Cons have "replace_all match_hashtag [] s = replace_all match_hashtag [] rest"
      by (simp add: replace_all_some)
    with strip_hashtags_break [OF r(2)] assms show ?thesis
      by auto
  qed
qed

lemma strip_hashtags_head_non_space:
  assumes "replace_all match_hashtag [] s = x # t" and "\<not> is_space x"
  shows "s \<noteq> [] \<and> \<not> is_space (hd s)"
proof (cases s)
  case Nil
  with assms(1) show ?thesis by simp
next
  case (Cons c cs)
  with assms show ?thesis
    by (cases "is_space c") (auto simp: replace_all_space [OF token_matcher_hashtag])
qed

lemma strip_hashtags_prefix:
  assumes "\<forall>c\<in>set P. \<not> is_space c \<and> c \<noteq> 35"
    and "prefix P (replace_all match_hashtag [] s)"
  shows "\<exists>r. s = P @ r \<and> replace_all match_hashtag [] s = P @ replace_all match_hashtag [] r"
  using assms
proof (induction P arbitrary: s)
  case Nil
  then show ?case by simp
next
  case (Cons p P)
  from Cons.prems(2) obtain t where t: "replace_all match_hashtag [] s = p # t" "prefix P t"
    by (auto simp: prefix_def)
  from Cons.prems(1) have p: "\<not> is_space p" "p \<noteq> 35" by simp_all
  from strip_hashtags_head [OF t(1) p] obtain cs
    where cs: "s = p # cs" "replace_all match_hashtag [] cs = t" by blast
  from Cons.IH [of cs] Cons.prems(1) t(2) cs(2) obtain r
    where "cs = P @ r" "replace_all match_hashtag [] cs = P @ replace_all match_hashtag [] r"
    by auto
  with cs t(1) show ?case by auto
qed

lemma match_url_prefix:
  "match_url s \<noteq> None \<longleftrightarrow> (\<exists>P x r. url_prefix P \<and> s = P @ x # r \<and> \<not> is_space x)"
  unfolding match_url_iff url_prefix_def by auto

lemma url_prefix_chars: "url_prefix P \<Longrightarrow> \<forall>c\<in>set P. \<not> is_space c \<and> c \<noteq> 35"
  unfolding url_prefix_def by (auto simp: is_space_def)

lemma strip_hashtags_url_pointwise:
  assumes "match_url (replace_all match_hashtag [] s) \<noteq> None"
  shows "match_url s \<noteq> None"
proof -
  from assms have "\<exists>P x t. url_prefix P \<and> replace_all match_hashtag [] s = P @ x # t
      \<and> \<not> is_space x"
    by (simp only: match_url_prefix)
  then obtain P x t where P: "url_prefix P"
    and h: "replace_all match_hashtag [] s = P @ x # t" and x: "\<not> is_space x"
    by (elim exE conjE)
  have pre: "prefix P (replace_all match_hashtag [] s)"
    unfolding h by (rule prefixI) (rule refl)
  from strip_hashtags_prefix [OF url_prefix_chars [OF P] pre] obtain r where r: "s = P @ r"
    "replace_all match_hashtag [] s = P @ replace_all match_hashtag [] r"
    by (elim exE conjE)
  from h r(2) have "P @ replace_all match_hashtag [] r = P @ x # t"
    by (simp only:)
  then have "replace_all match_hashtag [] r = x # t"
    by (simp only: same_append_eq)
  from strip_hashtags_head_non_space [OF this x] have ne: "r \<noteq> []" "\<not> is_space (hd r)"
    by blast+
  from ne(1) obtain y r' where yr: "r = y # r'"
    by (cases r) auto
  with ne(2) have y: "\<not> is_space y"
    by simp
  have "s = P @ y # r'"
    using r(1) yr by (simp only:)
  with P y have "\<exists>P x r. url_prefix P \<and> s = P @ x # r \<and> \<not> is_space x"
    by (intro exI conjI)
  then show ?thesis
    by (simp only: match_url_prefix)
qed

lemma strip_hashtags_pointwise:
  assumes "match_hashtag (replace_all match_hashtag [] s) \<noteq> None"
  shows "match_hashtag s \<noteq> None"
proof (rule ccontr)
  assume "\<not> match_hashtag s \<noteq> None"
  then have n: "match_hashtag s = None" by simp
  from assms obtain x t where h: "replace_all match_hashtag [] s = 35 # x # t"
    and x: "\<not> is_space x" "x \<noteq> 35"
    unfolding match_hashtag_iff by blast
  from h obtain c cs where s: "s = c # cs" by (cases s) auto
  with n h have "c = 35" "replace_all match_hashtag [] cs = x # t"
    by (simp_all add: replace_all_none)
  with strip_hashtags_head [OF this(2) x] s have "\<exists>cs'. s = 35 # x # cs'" by auto
  with x have "match_hashtag s \<noteq> None"
    unfolding match_hashtag_iff by blast
  with n show False by simp
qed

lemma strip_hashtags_no_hashtag: "\<not> has_match match_hashtag (replace_all match_hashtag [] s)"
proof (rule replace_all_kills_matches)
  show "\<And>s. match_hashtag (replace_all match_hashtag [] s) \<noteq> None \<Longrightarrow> match_hashtag s \<noteq> None"
    by (rule strip_hashtags_pointwise)
  show "match_hashtag [] = None"
    by (simp add: match_hashtag_def)
  show "\<And>s rest. match_hashtag s = Some rest \<Longrightarrow> length rest < length s"
    using match_hashtag_rest by blast
qed

lemma strip_hashtags_keeps_no_url:
  assumes "\<not> has_match match_url s"
  shows "\<not> has_match match_url (replace_all match_hashtag [] s)"
proof
  assume "has_match match_url (replace_all match_hashtag [] s)"
  then have "has_match match_url s"
  proof (rule replace_all_preserves_no_match [rotated 3])
    show "\<And>s. match_url (replace_all match_hashtag [] s) \<noteq> None \<Longrightarrow> match_url s \<noteq> None"
      by (rule strip_hashtags_url_pointwise)
    show "\<And>s rest. match_hashtag s = Some rest \<Longrightarrow> suffix rest s"
      using match_hashtag_rest by blast
    show "\<And>z. has_match match_url ([] @ z) \<Longrightarrow> has_match match_url z"
      by simp
  qed
  with assms show False by simp
qed

subsection \<open>Collapsing white space\<close>

lemma collapse_first_token:
  "takeWhile (\<lambda>c. \<not> is_space c) (replace_all match_spaces [32] s)
     = takeWhile (\<lambda>c. \<not> is_space c) s"
proof (induction "length s" arbitrary: s rule: less_induct)
  case less
  show ?case
  proof (cases s)
    case Nil
    then show ?thesis by simp
  next
    case (Cons c cs)
    show ?thesis
    proof (cases "match_spaces s")
      case None
      with Cons have c: "\<not> is_space c"
        by (simp add: match_spaces_None)
      from None Cons have "replace_all match_spaces [32] s = c # replace_all match_spaces [32] cs"
        by (simp add: replace_all_none)
      with less [of cs] Cons c show ?thesis by simp
    next
      case (Some rest)
      from match_spaces_rest [OF Some] have r: "length rest < length s" "is_space (hd s)"
        by blast+
      with Some Cons have "replace_all match_spaces [32] s
          = 32 # replace_all match_spaces [32] rest"
        by (simp add: replace_all_some)
      with r(2) Cons show ?thesis
        by (simp add: url_chars_non_space)
    qed
  qed
qed

lemma collapse_pointwise:
  assumes "token_matcher m" and "m (replace_all match_spaces [32] s) \<noteq> None"
  shows "m s \<noteq> None"
  using token_matcher_token [OF assms(1) collapse_first_token assms(2)] .

lemma collapse_keeps_no_match:
  assumes tm: "token_matcher m" and "\<not> has_match m s"
  shows "\<not> has_match m (replace_all match_spaces [32] s)"
proof
  assume "has_match m (replace_all match_spaces [32] s)"
  then have "has_match m s"
  proof (rule replace_all_preserves_no_match [rotated 3])
    show "\<And>s. m (replace_all match_spaces [32] s) \<noteq> None \<Longrightarrow> m s \<noteq> None"
      using tm by (rule collapse_pointwise)
    show "\<And>s rest. match_spaces s = Some rest \<Longrightarrow> suffix rest s"
      using match_spaces_rest by blast
    show "\<And>z. has_match m ([32] @ z) \<Longrightarrow> has_match m z"
      using token_matcher_space [OF tm, of "32"] by (simp add: url_chars_non_space)
  qed
  with assms(2) show False by simp
qed

lemma collapse_head:
  assumes "r = [] \<or> \<not> is_space (hd r)"
  shows "replace_all match_spaces [32] r = []
     \<or> \<not> is_space (hd (replace_all match_spaces [32] r))"
proof (cases r)
  case Nil
  then show ?thesis by simp
next
  case (Cons d ds)
  with assms have "match_spaces r = None"
    by (simp add: match_spaces_None)
  with Cons assms show ?thesis
    by (simp add: replace_all_none)
qed

lemma collapse_single_spaced: "single_spaced (replace_all match_spaces [32] s)"
proof (induction "length s" arbitrary: s rule: less_induct)
  case less
  show ?case
  proof (cases s)
    case Nil
    then show ?thesis by simp
  next
    case (Cons c cs)
    show ?thesis
    proof (cases "match_spaces s")
      case None
      with Cons have c: "\<not> is_space c"
        by (simp add: match_spaces_None)
      from None Cons have "replace_all match_spaces [32] s = c # replace_all match_spaces [32] cs"
        by (simp add: replace_all_none)
      with less [of cs] Cons c show ?thesis by simp
    next
      case (Some rest)
      from match_spaces_rest [OF Some]
      have r: "length rest < length s" "rest = [] \<or> \<not> is_space (hd rest)"
        by blast+
      with Some Cons have "replace_all match_spaces [32] s
          = 32 # replace_all match_spaces [32] rest"
        by (simp add: replace_all_some)
      with less [OF r(1)] collapse_head [OF r(2)] show ?thesis
        by (auto simp: url_chars_non_space)
    qed
  qed
qed

lemma collapse_id: "single_spaced y \<Longrightarrow> replace_all match_spaces [32] y = y"
proof (induction y)
  case Nil
  then show ?case by simp
next
  case (Cons c cs)
  show ?case
  proof (cases "is_space c")
    case False
    then have "match_spaces (c # cs) = None"
      by (simp add: match_spaces_None)
    with Cons False show ?thesis
      by (simp add: replace_all_none)
  next
    case True
    with Cons.prems have c: "c = 32" and h: "cs = [] \<or> \<not> is_space (hd cs)"
      and ss: "single_spaced cs"
      by simp_all
    from h have "dropWhile is_space cs = cs"
      by (cases cs) auto
    with True have "match_spaces (c # cs) = Some cs"
      by (simp add: match_spaces_def)
    then have "replace_all match_spaces [32] (c # cs) = [32] @ replace_all match_spaces [32] cs"
      by (simp add: replace_all_some)
    with Cons.IH [OF ss] c show ?thesis by simp
  qed
qed

lemma single_spaced_append:
  "single_spaced (a @ b) \<Longrightarrow> single_spaced a \<and> single_spaced b"
proof (induction a)
  case Nil
  then show ?case by simp
next
  case (Cons c a)
  then show ?case
    by (cases a) (auto split: if_splits)
qed

subsection \<open>Trimming\<close>

lemma trim_decompose: "\<exists>a b. s = a @ trim s @ b"
proof -
  let ?z = "dropWhile is_space s"
  have "rev (takeWhile is_space (rev ?z) @ dropWhile is_space (rev ?z))
      = rev (dropWhile is_space (rev ?z)) @ rev (takeWhile is_space (rev ?z))"
    by (rule rev_append)
  then have "rev (rev ?z) = rev (dropWhile is_space (rev ?z)) @ rev (takeWhile is_space (rev ?z))"
    by (simp only: takeWhile_dropWhile_id)
  then have "?z = trim s @ rev (takeWhile is_space (rev ?z))"
    by (simp only: rev_rev_ident trim_def)
  moreover have "s = takeWhile is_space s @ ?z"
    by simp
  ultimately show ?thesis
    by metis
qed

lemma has_match_append:
  assumes "token_matcher m" and "has_match m u"
  shows "has_match m (a @ u @ b)"
proof -
  from assms(2) obtain t where t: "suffix t u" "m t \<noteq> None"
    unfolding has_match_iff by blast
  from t(1) obtain p where "u = p @ t"
    by (auto simp: suffix_def)
  then have "suffix (t @ b) (a @ u @ b)"
    by (simp add: suffix_def)
  moreover have "m (t @ b) \<noteq> None"
    using assms(1) t(2) unfolding token_matcher_def by (meson prefixI)
  ultimately show ?thesis
    unfolding has_match_iff by blast
qed

lemma trim_keeps_no_match:
  assumes "token_matcher m" and "\<not> has_match m s"
  shows "\<not> has_match m (trim s)"
proof
  assume h: "has_match m (trim s)"
  obtain a b where "s = a @ trim s @ b"
    using trim_decompose by blast
  with has_match_append [OF assms(1) h, of a b] assms(2) show False
    by simp
qed

lemma trim_single_spaced: "single_spaced s \<Longrightarrow> single_spaced (trim s)"
proof -
  assume ss: "single_spaced s"
  obtain a b where ab: "s = a @ trim s @ b"
    using trim_decompose by blast
  with ss have "single_spaced (a @ trim s @ b)"
    by simp
  then have "single_spaced (trim s @ b)"
    using single_spaced_append by blast
  then show ?thesis
    using single_spaced_append by blast
qed

lemma last_suffix: "suffix v w \<Longrightarrow> v \<noteq> [] \<Longrightarrow> last v = last w"
  by (auto simp: suffix_def)

lemma trim_ends:
  "trim s = [] \<or> (\<not> is_space (hd (trim s)) \<and> \<not> is_space (last (trim s)))"
proof (cases "trim s = []")
  case True
  then show ?thesis by simp
next
  case False
  let ?z = "dropWhile is_space s"
  let ?v = "dropWhile is_space (rev ?z)"
  from False have v: "?v \<noteq> []"
    by (simp add: trim_def)
  then have "\<not> is_space (hd ?v)"
    by (rule hd_dropWhile)
  then have l: "\<not> is_space (last (trim s))"
    using v by (simp add: trim_def last_rev)
  have z: "?z \<noteq> []"
  proof
    assume "?z = []"
    then have "?v = []"
      by (simp only: rev.simps dropWhile.simps)
    with v show False
      by simp
  qed
  have "suffix ?v (rev ?z)"
    by (rule suffix_dropWhile)
  then have "last ?v = last (rev ?z)"
    using v by (rule last_suffix)
  with z have "last ?v = hd ?z"
    by (simp add: last_rev)
  moreover from z have "\<not> is_space (hd ?z)"
    by (rule hd_dropWhile)
  ultimately have "\<not> is_space (hd (trim s))"
    using v by (simp add: trim_def hd_rev)
  with l show ?thesis by simp
qed

lemma trim_id:
  assumes "u = [] \<or> (\<not> is_space (hd u) \<and> \<not> is_space (last u))"
  shows "trim u = u"
proof (cases "u = []")
  case True
  then show ?thesis by (simp add: trim_def)
next
  case False
  with assms have h: "\<not> is_space (hd u)" and l: "\<not> is_space (last u)"
    by simp_all
  from False h have "dropWhile is_space u = u"
    by (cases u) auto
  moreover from False l have "dropWhile is_space (rev u) = rev u"
    by (cases "rev u") (auto simp: last_rev hd_rev)
  ultimately show ?thesis
    by (simp add: trim_def)
qed

lemma trim_idem: "trim (trim s) = trim s"
  using trim_id [OF trim_ends] .

subsection \<open>The cleaned text\<close>

lemma cleanText_no_url: "\<not> has_match match_url (cleanText t)"
  unfolding cleanText_def
  by (intro trim_keeps_no_match collapse_keeps_no_match strip_hashtags_keeps_no_url
      strip_urls_no_url token_matcher_url)

lemma cleanText_no_hashtag: "\<not> has_match match_hashtag (cleanText t)"
  unfolding cleanText_def
  by (intro trim_keeps_no_match collapse_keeps_no_match strip_hashtags_no_hashtag
      token_matcher_hashtag)

lemma cleanText_single_spaced: "single_spaced (cleanText t)"
  unfolding cleanText_def
  by (intro trim_single_spaced collapse_single_spaced)

lemma cleanText_trimmed: "trim (cleanText t) = cleanText t"
  unfolding cleanText_def by (rule trim_idem)

lemma cleanText_fixed:
  assumes "\<not> has_match match_url u" and "\<not> has_match match_hashtag u"
    and "single_spaced u" and "trim u = u"
  shows "cleanText u = u"
  using assms by (simp add: cleanText_def replace_all_no_match collapse_id)

lemma cleanText_idem: "cleanText (cleanText t) = cleanText t"
  by (intro cleanText_fixed cleanText_no_url cleanText_no_hashtag cleanText_single_spaced
      cleanText_trimmed)

subsection \<open>The cleaning as specified\<close>

lemma is_space_spec: "is_space c = spec_white c"
  by (auto simp: is_space_def spec_white_def)

lemma tokens_from_run:
  "\<forall>c\<in>set tok. \<not> is_space c \<Longrightarrow>
     spec_tokens_from cur (tok @ rest) = spec_tokens_from (cur @ tok) rest"
  by (induction tok arbitrary: cur) (simp_all add: is_space_spec)

lemma tokens_space: "is_space w \<Longrightarrow> spec_tokens (w # r) = spec_tokens r"
  by (simp add: spec_tokens_def is_space_spec)

lemma tokens_token:
  assumes "\<forall>c\<in>set tok. \<not> is_space c" and "rest = [] \<or> is_space (hd rest)"
  shows "spec_tokens (tok @ rest) = (if tok = [] then [] else [tok]) @ spec_tokens rest"
proof -
  have "spec_tokens (tok @ rest) = spec_tokens_from tok rest"
    using tokens_from_run [OF assms(1), of "[]" rest] by (simp add: spec_tokens_def)
  also have "\<dots> = (if tok = [] then [] else [tok]) @ spec_tokens rest"
    using assms(2) by (cases rest) (auto simp: spec_tokens_def is_space_spec)
  finally show ?thesis .
qed

lemma tokens_drop_spaces: "spec_tokens (dropWhile is_space s) = spec_tokens s"
  by (induction s) (simp_all add: tokens_space)

lemma tokens_non_empty: "[] \<notin> set (spec_tokens_from cur s) "
  by (induction s arbitrary: cur) auto

lemma token_split:
  assumes "s \<noteq> []" and "\<not> is_space (hd s)"
  obtains tok rest where "s = tok @ rest" "tok \<noteq> []" "\<forall>c\<in>set tok. \<not> is_space c"
    "rest = [] \<or> is_space (hd rest)" "length rest < length s"
proof
  let ?tok = "takeWhile (\<lambda>c. \<not> is_space c) s"
  let ?rest = "dropWhile (\<lambda>c. \<not> is_space c) s"
  show "s = ?tok @ ?rest" by simp
  show ne: "?tok \<noteq> []" using assms by (cases s) auto
  show "\<forall>c\<in>set ?tok. \<not> is_space c" by (auto dest: set_takeWhileD)
  show "?rest = [] \<or> is_space (hd ?rest)"
    using hd_dropWhile [of "\<lambda>c. \<not> is_space c" s] by auto
  have "length s = length ?tok + length ?rest"
    by (metis length_append takeWhile_dropWhile_id)
  with ne show "length ?rest < length s" by (cases ?tok) auto
qed

text \<open>a replacement that works token by token\<close>

lemma tokens_of_tokenwise:
  assumes e: "F [] = []"
    and w: "\<And>w r. is_space w \<Longrightarrow> F (w # r) = w # F r"
    and t: "\<And>tok rest. tok \<noteq> [] \<Longrightarrow> \<forall>c\<in>set tok. \<not> is_space c \<Longrightarrow>
              rest = [] \<or> is_space (hd rest) \<Longrightarrow> F (tok @ rest) = f tok @ F rest"
    and n: "\<And>tok. \<forall>c\<in>set tok. \<not> is_space c \<Longrightarrow> \<forall>c\<in>set (f tok). \<not> is_space c"
  shows "spec_tokens (F s) = filter (\<lambda>t. t \<noteq> []) (map f (spec_tokens s))"
proof (induction "length s" arbitrary: s rule: less_induct)
  case less
  show ?case
  proof (cases s)
    case Nil
    then show ?thesis by (simp add: e spec_tokens_def)
  next
    case (Cons c cs)
    show ?thesis
    proof (cases "is_space c")
      case True
      with less [of cs] Cons show ?thesis
        by (simp add: w tokens_space)
    next
      case False
      with Cons have "s \<noteq> []" "\<not> is_space (hd s)" by simp_all
      then obtain tok rest where sp: "s = tok @ rest" "tok \<noteq> []" "\<forall>c\<in>set tok. \<not> is_space c"
        "rest = [] \<or> is_space (hd rest)" "length rest < length s"
        by (rule token_split)
      have Fr: "F rest = [] \<or> is_space (hd (F rest))"
        using sp(4) by (cases rest) (auto simp: e w)
      have "spec_tokens (F s) = spec_tokens (f tok @ F rest)"
        by (simp add: sp(1) t [OF sp(2,3,4)])
      also have "\<dots> = (if f tok = [] then [] else [f tok]) @ spec_tokens (F rest)"
        by (rule tokens_token [OF n [OF sp(3)] Fr])
      also have "spec_tokens (F rest) = filter (\<lambda>t. t \<noteq> []) (map f (spec_tokens rest))"
        by (rule less [OF sp(5)])
      finally show ?thesis
        by (simp add: sp(1) tokens_token [OF sp(3,4)] sp(2))
    qed
  qed
qed

subsection \<open>The tokens after URLs are stripped\<close>

lemma dropWhile_token:
  assumes "\<forall>c\<in>set t. \<not> is_space c" and "rest = [] \<or> is_space (hd rest)"
  shows "dropWhile (\<lambda>c. \<not> is_space c) (t @ rest) = rest"
  using assms by (induction t) (auto simp: dropWhile_eq_self_iff)

lemma takeWhile_token:
  assumes "\<forall>c\<in>set t. \<not> is_space c" and "rest = [] \<or> is_space (hd rest)"
  shows "takeWhile (\<lambda>c. \<not> is_space c) (t @ rest) = t"
  using assms by (induction t) (auto simp: takeWhile_eq_Nil_iff)


lemma spec_url_start_prefix:
  "spec_url_start t \<longleftrightarrow> (\<exists>P. url_prefix P \<and> prefix P t \<and> length P < length t)"
  unfolding spec_url_start_def url_prefix_def by (simp only: list.set) blast

lemma url_start_match:
  assumes "\<forall>c\<in>set tok. \<not> is_space c"
  shows "spec_url_start tok \<longleftrightarrow> match_url tok \<noteq> None"
proof
  assume "spec_url_start tok"
  then obtain P where P: "url_prefix P" "prefix P tok" "length P < length tok"
    unfolding spec_url_start_prefix by (elim exE conjE)
  from P(2) obtain r where r: "tok = P @ r"
    by (auto simp only: prefix_def)
  with P(3) have "r \<noteq> []" by auto
  then obtain x r' where "r = x # r'"
    by (cases r) auto
  with r have t: "tok = P @ x # r'" by (simp only:)
  with assms have "\<not> is_space x" by simp
  with t P(1) have "\<exists>P x r. url_prefix P \<and> tok = P @ x # r \<and> \<not> is_space x"
    by (intro exI conjI)
  then show "match_url tok \<noteq> None"
    by (simp only: match_url_prefix)
next
  assume "match_url tok \<noteq> None"
  then have "\<exists>P x r. url_prefix P \<and> tok = P @ x # r \<and> \<not> is_space x"
    by (simp only: match_url_prefix)
  then obtain P x r where P: "url_prefix P" "tok = P @ x # r"
    by (elim exE conjE)
  then have "prefix P tok" "length P < length tok"
    by simp_all
  with P(1) show "spec_url_start tok"
    unfolding spec_url_start_prefix by (intro exI conjI)
qed


lemma match_url_value:
  assumes "url_prefix P" and "\<not> is_space x"
  shows "match_url (P @ x # r) = Some (dropWhile (\<lambda>c. \<not> is_space c) r)"
proof -
  from assms(1) consider "P = ascii ''https://''" | "P = ascii ''http://''" | "P = ascii ''www.''"
    unfolding url_prefix_def by blast
  then show ?thesis
  proof cases
    case 1
    with assms(2) show ?thesis by (simp add: match_url_def non_space_run_def)
  next
    case 2
    with assms(2) show ?thesis by (simp add: match_url_def non_space_run_def)
  next
    case 3
    with assms(2) show ?thesis by (simp add: match_url_def non_space_run_def)
  qed
qed


lemma match_url_token:
  assumes tok: "\<forall>c\<in>set tok. \<not> is_space c" and rest: "rest = [] \<or> is_space (hd rest)"
  shows "match_url (tok @ rest) = (if spec_url_start tok then Some rest else None)"
proof (cases "match_url tok")
  case None
  have "match_url (tok @ rest) = None"
  proof (rule ccontr)
    assume "match_url (tok @ rest) \<noteq> None"
    then have "match_url (takeWhile (\<lambda>c. \<not> is_space c) (tok @ rest)) \<noteq> None"
      using token_matcher_url unfolding token_matcher_def by blast
    with None show False
      by (simp add: takeWhile_token [OF tok rest])
  qed
  with None show ?thesis
    by (simp add: url_start_match [OF tok])
next
  case (Some r0)
  then have "match_url tok \<noteq> None" by simp
  then have "\<exists>P x r. url_prefix P \<and> tok = P @ x # r \<and> \<not> is_space x"
    by (simp only: match_url_prefix)
  then obtain P x r where P: "url_prefix P" and t: "tok = P @ x # r" and x: "\<not> is_space x"
    by (elim exE conjE)
  from t tok have r: "\<forall>c\<in>set r. \<not> is_space c" by auto
  have "match_url (tok @ rest) = match_url (P @ x # (r @ rest))"
    by (simp add: t)
  also have "\<dots> = Some (dropWhile (\<lambda>c. \<not> is_space c) (r @ rest))"
    by (rule match_url_value [OF P x])
  also have "\<dots> = Some rest"
    by (simp only: dropWhile_token [OF r rest])
  finally show ?thesis
    using Some by (simp add: url_start_match [OF tok])
qed

lemma strip_urls_token:
  assumes "\<forall>c\<in>set tok. \<not> is_space c" and "rest = [] \<or> is_space (hd rest)"
  shows "replace_all match_url [] (tok @ rest) = spec_cut_url tok @ replace_all match_url [] rest"
  using assms(1)
proof (induction tok)
  case Nil
  then show ?case by simp
next
  case (Cons c tok)
  from Cons.prems have t: "\<forall>c\<in>set tok. \<not> is_space c" by simp
  note m = match_url_token [OF Cons.prems assms(2)]
  show ?case
  proof (cases "spec_url_start (c # tok)")
    case True
    with m have "match_url (c # tok @ rest) = Some rest" by simp
    then have "replace_all match_url [] (c # tok @ rest) = replace_all match_url [] rest"
      by (simp add: replace_all_some)
    with True show ?thesis by simp
  next
    case False
    with m have "match_url (c # tok @ rest) = None" by simp
    then have "replace_all match_url [] (c # tok @ rest) = c # replace_all match_url [] (tok @ rest)"
      by (simp add: replace_all_none)
    with False Cons.IH [OF t] show ?thesis by simp
  qed
qed

lemma cut_url_subset: "set (spec_cut_url t) \<subseteq> set t"
  by (induction t) auto

lemma strip_urls_tokens:
  "spec_tokens (replace_all match_url [] s)
     = filter (\<lambda>t. t \<noteq> []) (map spec_cut_url (spec_tokens s))"
proof (rule tokens_of_tokenwise)
  show "replace_all match_url [] [] = []" by simp
  show "\<And>w r. is_space w \<Longrightarrow> replace_all match_url [] (w # r) = w # replace_all match_url [] r"
    by (rule replace_all_space [OF token_matcher_url])
  show "\<And>tok rest. tok \<noteq> [] \<Longrightarrow> \<forall>c\<in>set tok. \<not> is_space c \<Longrightarrow>
          rest = [] \<or> is_space (hd rest) \<Longrightarrow>
          replace_all match_url [] (tok @ rest) = spec_cut_url tok @ replace_all match_url [] rest"
    by (rule strip_urls_token)
  show "\<And>tok. \<forall>c\<in>set tok. \<not> is_space c \<Longrightarrow> \<forall>c\<in>set (spec_cut_url tok). \<not> is_space c"
    using cut_url_subset by blast
qed

subsection \<open>The tokens after hashtags are stripped\<close>

lemma dropWhile_tag_token:
  assumes "\<forall>c\<in>set t. \<not> is_space c" and "rest = [] \<or> is_space (hd rest)"
  shows "dropWhile (\<lambda>c. \<not> is_space c \<and> c \<noteq> 35) (t @ rest)
     = dropWhile (\<lambda>x. x \<noteq> 35) t @ rest"
  using assms by (induction t) (auto simp: dropWhile_eq_self_iff)

lemma match_hashtag_token:
  assumes tok: "\<forall>c\<in>set (c # tok). \<not> is_space c" and rest: "rest = [] \<or> is_space (hd rest)"
  shows "match_hashtag (c # tok @ rest)
     = (if c = 35 \<and> tok \<noteq> [] \<and> hd tok \<noteq> 35 then Some (dropWhile (\<lambda>x. x \<noteq> 35) tok @ rest)
        else None)"
proof (cases tok)
  case Nil
  with rest show ?thesis
    by (cases rest) (auto simp: match_hashtag_def)
next
  case (Cons x tok')
  with tok have x: "\<not> is_space x" and t: "\<forall>c\<in>set tok. \<not> is_space c" by simp_all
  show ?thesis
    using x Cons dropWhile_tag_token [OF t rest]
    by (auto simp: match_hashtag_def)
qed

lemma strip_hashtags_token:
  assumes "\<forall>c\<in>set tok. \<not> is_space c" and rest: "rest = [] \<or> is_space (hd rest)"
  shows "replace_all match_hashtag [] (tok @ rest)
     = spec_strip_hashtags tok @ replace_all match_hashtag [] rest"
  using assms(1)
proof (induction "length tok" arbitrary: tok rule: less_induct)
  case less
  show ?case
  proof (cases tok)
    case Nil
    then show ?thesis by simp
  next
    case (Cons c tok')
    with less.prems have all: "\<forall>x\<in>set (c # tok'). \<not> is_space x" by simp
    then have t': "\<forall>x\<in>set tok'. \<not> is_space x" by simp
    note m = match_hashtag_token [OF all rest]
    show ?thesis
    proof (cases "c = 35 \<and> tok' \<noteq> [] \<and> hd tok' \<noteq> 35")
      case True
      let ?d = "dropWhile (\<lambda>x. x \<noteq> 35) tok'"
      from True m have "match_hashtag (c # tok' @ rest) = Some (?d @ rest)" by simp
      moreover have "length (?d @ rest) \<le> length (tok' @ rest)"
        by (simp add: length_dropWhile_le)
      ultimately have "replace_all match_hashtag [] (c # tok' @ rest)
          = replace_all match_hashtag [] (?d @ rest)"
        by (simp add: replace_all_some)
      moreover have "length ?d < length tok"
        using Cons by (simp add: length_dropWhile_le le_imp_less_Suc)
      moreover have "\<forall>x\<in>set ?d. \<not> is_space x"
        using t' by (auto dest: set_dropWhileD)
      ultimately have "replace_all match_hashtag [] (c # tok' @ rest)
          = spec_strip_hashtags ?d @ replace_all match_hashtag [] rest"
        using less.hyps [of ?d] by simp
      with True Cons show ?thesis by simp
    next
      case False
      with m have "match_hashtag (c # tok' @ rest) = None" by simp
      then have "replace_all match_hashtag [] (c # tok' @ rest)
          = c # replace_all match_hashtag [] (tok' @ rest)"
        by (simp add: replace_all_none)
      moreover have "replace_all match_hashtag [] (tok' @ rest)
          = spec_strip_hashtags tok' @ replace_all match_hashtag [] rest"
        using less.hyps [of tok'] Cons t' by simp
      ultimately show ?thesis
        using False Cons by auto
    qed
  qed
qed

lemma strip_hashtags_subset: "set (spec_strip_hashtags t) \<subseteq> set t"
proof (induction t rule: spec_strip_hashtags.induct)
  case 1
  then show ?case by simp
next
  case (2 c cs)
  show ?case
  proof (cases "c = 35 \<and> cs \<noteq> [] \<and> hd cs \<noteq> 35")
    case True
    with 2(1) have "set (spec_strip_hashtags (dropWhile (\<lambda>x. x \<noteq> 35) cs))
        \<subseteq> set (dropWhile (\<lambda>x. x \<noteq> 35) cs)"
      by simp
    also have "\<dots> \<subseteq> set cs"
      by (auto dest: set_dropWhileD)
    finally show ?thesis
      using True by auto
  next
    case False
    with 2(2) show ?thesis by auto
  qed
qed

lemma strip_hashtags_tokens:
  "spec_tokens (replace_all match_hashtag [] s)
     = filter (\<lambda>t. t \<noteq> []) (map spec_strip_hashtags (spec_tokens s))"
proof (rule tokens_of_tokenwise)
  show "replace_all match_hashtag [] [] = []" by simp
  show "\<And>w r. is_space w \<Longrightarrow>
          replace_all match_hashtag [] (w # r) = w # replace_all match_hashtag [] r"
    by (rule replace_all_space [OF token_matcher_hashtag])
  show "\<And>tok rest. tok \<noteq> [] \<Longrightarrow> \<forall>c\<in>set tok. \<not> is_space c \<Longrightarrow>
          rest = [] \<or> is_space (hd rest) \<Longrightarrow>
          replace_all match_hashtag [] (tok @ rest)
            = spec_strip_hashtags tok @ replace_all match_hashtag [] rest"
    by (rule strip_hashtags_token)
  show "\<And>tok. \<forall>c\<in>set tok. \<not> is_space c \<Longrightarrow>
          \<forall>c\<in>set (spec_strip_hashtags tok). \<not> is_space c"
    using strip_hashtags_subset by blast
qed

subsection \<open>Collapsing and trimming join the tokens\<close>

lemma collapse_run:
  "\<forall>c\<in>set tok. \<not> is_space c \<Longrightarrow>
     replace_all match_spaces [32] (tok @ rest) = tok @ replace_all match_spaces [32] rest"
  by (induction tok) (simp_all add: replace_all_none match_spaces_None)

lemma collapse_spaces:
  assumes "s \<noteq> []" and "is_space (hd s)"
  shows "replace_all match_spaces [32] s
     = 32 # replace_all match_spaces [32] (dropWhile is_space s)"
proof -
  from assms obtain c cs where s: "s = c # cs" by (cases s) auto
  from assms have "match_spaces s \<noteq> None"
    by (simp add: match_spaces_None)
  then obtain rest where r: "match_spaces s = Some rest" by auto
  from match_spaces_rest [OF r] have "rest = dropWhile is_space s" "length rest < length s"
    by blast+
  with r s show ?thesis
    by (simp add: replace_all_some)
qed

lemma trim_rtrim: "trim s = rtrim (dropWhile is_space s)"
  by (simp add: trim_def rtrim_def)

lemma rtrim_empty: "rtrim b = [] \<longleftrightarrow> (\<forall>x\<in>set b. is_space x)"
  by (simp add: rtrim_def dropWhile_eq_Nil_conv)

lemma rtrim_append: "rtrim (a @ b) = (if rtrim b = [] then rtrim a else a @ rtrim b)"
  by (simp add: rtrim_def dropWhile_append rtrim_empty [unfolded rtrim_def])

lemma rtrim_token: "t = [] \<or> \<not> is_space (last t) \<Longrightarrow> rtrim t = t"
  by (cases t rule: rev_cases) (simp_all add: rtrim_def)

lemma rtrim_space: "rtrim [32] = []"
  by (simp add: rtrim_def url_chars_non_space)

lemma rtrim_space_Cons: "rtrim (32 # xs) = (if rtrim xs = [] then [] else 32 # rtrim xs)"
  using rtrim_append [of "[32]" xs] by (simp add: rtrim_space)

lemma tokens_have_no_empty: "[] \<notin> set (spec_tokens s)"
  by (simp add: spec_tokens_def tokens_non_empty)

lemma spec_join_Cons: "spec_join (t # ts) = (if ts = [] then t else t @ 32 # spec_join ts)"
  by (cases ts) simp_all

lemma spec_join_empty: "[] \<notin> set ts \<Longrightarrow> spec_join ts = [] \<longleftrightarrow> ts = []"
  by (cases ts) (auto simp: spec_join_Cons)

lemma rtrim_collapse:
  "y = [] \<or> \<not> is_space (hd y) \<Longrightarrow>
     rtrim (replace_all match_spaces [32] y) = spec_join (spec_tokens y)"
proof (induction "length y" arbitrary: y rule: less_induct)
  case less
  show ?case
  proof (cases "y = []")
    case True
    then show ?thesis by (simp add: rtrim_def spec_tokens_def)
  next
    case False
    with less.prems have "\<not> is_space (hd y)" by simp
    with False obtain tok rest where sp: "y = tok @ rest" "tok \<noteq> []"
      "\<forall>c\<in>set tok. \<not> is_space c" "rest = [] \<or> is_space (hd rest)" "length rest < length y"
      by (rule token_split)
    from sp(2,3) have last: "\<not> is_space (last tok)" by simp
    have W: "replace_all match_spaces [32] y = tok @ replace_all match_spaces [32] rest"
      unfolding sp(1) by (rule collapse_run [OF sp(3)])
    have T: "spec_tokens y = tok # spec_tokens rest"
      unfolding sp(1) using tokens_token [OF sp(3,4)] sp(2) by simp
    show ?thesis
    proof (cases "rest = []")
      case True
      with W T last show ?thesis
        by (simp add: rtrim_token spec_tokens_def)
    next
      case False
      with sp(4) have sprest: "is_space (hd rest)" by simp
      let ?r = "dropWhile is_space rest"
      have Wr: "replace_all match_spaces [32] rest = 32 # replace_all match_spaces [32] ?r"
        using False sprest by (rule collapse_spaces)
      have l: "length ?r < length y"
        using sp(5) length_dropWhile_le [of is_space rest] by simp
      have h: "?r = [] \<or> \<not> is_space (hd ?r)"
        using hd_dropWhile [of is_space rest] by auto
      from less.hyps [OF l h]
      have IH: "rtrim (replace_all match_spaces [32] ?r) = spec_join (spec_tokens rest)"
        by (simp add: tokens_drop_spaces)
      have e: "spec_join (spec_tokens rest) = [] \<longleftrightarrow> spec_tokens rest = []"
        by (rule spec_join_empty [OF tokens_have_no_empty])
      have "rtrim (replace_all match_spaces [32] y)
          = rtrim (tok @ [32] @ replace_all match_spaces [32] ?r)"
        by (simp add: W Wr)
      also have "\<dots> = (if spec_tokens rest = [] then tok
                        else tok @ 32 # spec_join (spec_tokens rest))"
        using IH e last sp(2)
        by (simp add: rtrim_append [of tok] rtrim_space_Cons rtrim_token)
      also have "\<dots> = spec_join (spec_tokens y)"
        by (simp add: T spec_join_Cons)
      finally show ?thesis .
    qed
  qed
qed

lemma trim_collapse: "trim (replace_all match_spaces [32] y) = spec_join (spec_tokens y)"
proof -
  let ?y = "dropWhile is_space y"
  have h: "?y = [] \<or> \<not> is_space (hd ?y)"
    using hd_dropWhile [of is_space y] by auto
  have "dropWhile is_space (replace_all match_spaces [32] y) = replace_all match_spaces [32] ?y"
  proof (cases "y \<noteq> [] \<and> is_space (hd y)")
    case True
    then have "replace_all match_spaces [32] y = 32 # replace_all match_spaces [32] ?y"
      using collapse_spaces by blast
    moreover have "dropWhile is_space (replace_all match_spaces [32] ?y)
        = replace_all match_spaces [32] ?y"
      using collapse_head [OF h] by (cases "replace_all match_spaces [32] ?y") auto
    ultimately show ?thesis
      by (simp add: url_chars_non_space)
  next
    case False
    then have y: "y = [] \<or> \<not> is_space (hd y)" by auto
    then have "?y = y" by (cases y) auto
    moreover have "dropWhile is_space (replace_all match_spaces [32] y)
        = replace_all match_spaces [32] y"
      using collapse_head [OF y] by (cases "replace_all match_spaces [32] y") auto
    ultimately show ?thesis by simp
  qed
  then have "trim (replace_all match_spaces [32] y) = rtrim (replace_all match_spaces [32] ?y)"
    by (simp add: trim_rtrim)
  also have "\<dots> = spec_join (spec_tokens ?y)"
    by (rule rtrim_collapse [OF h])
  finally show ?thesis
    by (simp add: tokens_drop_spaces)
qed

lemma strip_hashtags_Nil: "spec_strip_hashtags [] = []"
  by simp

lemma cleanText_spec: "cleanText s = spec_clean s"
proof -
  have "cleanText s
      = spec_join (spec_tokens (replace_all match_hashtag [] (replace_all match_url [] s)))"
    by (simp add: cleanText_def trim_collapse)
  also have "\<dots> = spec_join (filter (\<lambda>t. t \<noteq> [])
      (map spec_strip_hashtags (filter (\<lambda>t. t \<noteq> []) (map spec_cut_url (spec_tokens s)))))"
    by (simp only: strip_hashtags_tokens strip_urls_tokens)
  also have "filter (\<lambda>t. t \<noteq> [])
      (map spec_strip_hashtags (filter (\<lambda>t. t \<noteq> []) (map spec_cut_url ts)))
      = filter (\<lambda>t. t \<noteq> []) (map (\<lambda>t. spec_strip_hashtags (spec_cut_url t)) ts)" for ts
    by (induction ts) simp_all
  finally show ?thesis
    by (simp add: spec_clean_def)
qed

subsection \<open>The extraction refines its specification\<close>

lemma spec_url_here_prefix:
  "spec_url_here t \<longleftrightarrow>
     (\<exists>P. url_prefix P \<and> prefix P t \<and> length P < length t \<and> \<not> is_space (t ! length P))"
  unfolding spec_url_here_def url_prefix_def is_space_spec by (simp only: list.set) blast

lemma match_url_here: "match_url t \<noteq> None \<longleftrightarrow> spec_url_here t"
proof
  assume "match_url t \<noteq> None"
  then obtain P x r where "url_prefix P" "t = P @ x # r" "\<not> is_space x"
    unfolding match_url_prefix by blast
  then have "url_prefix P \<and> prefix P t \<and> length P < length t \<and> \<not> is_space (t ! length P)"
    by simp
  then show "spec_url_here t"
    unfolding spec_url_here_prefix by blast
next
  assume "spec_url_here t"
  then obtain P where P: "url_prefix P" "prefix P t" "length P < length t"
    "\<not> is_space (t ! length P)"
    unfolding spec_url_here_prefix by blast
  from P(2) obtain r where r: "t = P @ r" by (auto simp: prefix_def)
  with P(3) obtain x r' where "r = x # r'" by (cases r) auto
  with r P(1,4) have "url_prefix P \<and> t = P @ x # r' \<and> \<not> is_space x" by simp
  then show "match_url t \<noteq> None"
    unfolding match_url_prefix by blast
qed

lemma match_url_Nil: "match_url [] = None"
  by (simp add: match_url_def)

lemma has_match_url: "has_match match_url s \<longleftrightarrow> spec_url_in s"
proof (induction s)
  case Nil
  show ?case by (simp add: match_url_Nil)
next
  case (Cons c cs)
  then show ?case
    by (simp only: has_match.simps spec_url_in.simps match_url_here)
qed

lemma has_match_hashtag: "has_match match_hashtag s \<longleftrightarrow> spec_hashtag_in s"
proof (induction s rule: spec_hashtag_in.induct)
  case (1 c x cs)
  have "match_hashtag (c # x # cs) \<noteq> None \<longleftrightarrow> c = 35 \<and> x \<noteq> 35 \<and> \<not> spec_white x"
    unfolding match_hashtag_iff is_space_spec by auto
  with 1 show ?case by simp
qed (simp_all add: match_hashtag_def)

lemma spec_clean_no_url: "\<not> spec_url_in (spec_clean s)"
  using cleanText_no_url [of s] by (simp add: has_match_url cleanText_spec)

lemma spec_clean_no_hashtag: "\<not> spec_hashtag_in (spec_clean s)"
  using cleanText_no_hashtag [of s] by (simp add: has_match_hashtag cleanText_spec)

lemma spec_clean_joined: "spec_join (spec_tokens (spec_clean s)) = spec_clean s"
proof -
  have "spec_join (spec_tokens (cleanText s))
      = trim (replace_all match_spaces [32] (cleanText s))"
    by (simp add: trim_collapse)
  also have "\<dots> = cleanText s"
    by (simp add: collapse_id cleanText_single_spaced cleanText_trimmed)
  finally show ?thesis
    by (simp add: cleanText_spec)
qed

lemma selected_for_finetuning_spec:
  "selected_for_finetuning =
     (\<lambda>t. \<not> isRetweet t \<and> tweet_text t \<noteq> None \<and> tweet_text t \<noteq> Some []
        \<and> timestamp t \<noteq> None)"
  by (auto simp: selected_for_finetuning_def fun_eq_iff split: option.splits)

lemma generateFinetuningData_spec: "generateFinetuningData tweets = spec_finetuning tweets"
proof -
  have "List.map_filter
          (\<lambda>entry. case entry of None \<Rightarrow> None
             | Some e \<Rightarrow> if length (entry_text e) > 0 then Some e else None)
          (map (\<lambda>tweet.
                  let clean = cleanText (case tweet_text tweet of None \<Rightarrow> [] | Some s \<Rightarrow> s)
                  in if clean = [] then None else Some \<lparr> entry_text = clean \<rparr>) xs)
      = map (\<lambda>c. \<lparr> entry_text = c \<rparr>)
          (filter (\<lambda>c. c \<noteq> [])
             (map (\<lambda>t. spec_clean (case tweet_text t of None \<Rightarrow> [] | Some s \<Rightarrow> s)) xs))"
    for xs :: "post list"
    by (induction xs) (simp_all add: List.map_filter_def Let_def cleanText_spec)
  then show ?thesis
    unfolding generateFinetuningData_def spec_finetuning_def selected_for_finetuning_spec .
qed

text \<open>
  C7. The extraction is the one specified: of the posts that are not retweets and have a
  non-empty text and a timestamp other than null (whatever number it is), it returns the
  cleaned texts that are not empty, in order. The cleaning cuts a text into tokens at
  white space, drops from each token what starts with \<open>http://\<close>, \<open>https://\<close> or
  \<open>www.\<close> in lower case and has one more character, then each \<open>#\<close> with the
  characters after it up to the next \<open>#\<close>, keeps everything else and joins the
  non-empty tokens by single spaces. Every text returned is non-empty, holds no such URL
  and no \<open>#\<close> followed by a character other than \<open>#\<close> and white space, is its own
  tokens joined by single spaces, and is left unchanged by the cleaning.
\<close>

theorem generateFinetuningData_refines:
  "generateFinetuningData tweets = spec_finetuning tweets
   \<and> (\<forall>e\<in>set (generateFinetuningData tweets).
         entry_text e \<noteq> []
       \<and> \<not> spec_url_in (entry_text e)
       \<and> \<not> spec_hashtag_in (entry_text e)
       \<and> spec_join (spec_tokens (entry_text e)) = entry_text e
       \<and> spec_clean (entry_text e) = entry_text e
       \<and> cleanText (entry_text e) = entry_text e)"
proof (intro conjI ballI)
  show "generateFinetuningData tweets = spec_finetuning tweets"
    by (rule generateFinetuningData_spec)
next
  fix e assume "e \<in> set (generateFinetuningData tweets)"
  then have "e \<in> set (spec_finetuning tweets)"
    by (simp only: generateFinetuningData_spec)
  then obtain t where t: "entry_text e = spec_clean t" "entry_text e \<noteq> []"
    unfolding spec_finetuning_def by auto
  show "entry_text e \<noteq> []" by (rule t(2))
  show "\<not> spec_url_in (entry_text e)"
    unfolding t(1) by (rule spec_clean_no_url)
  show "\<not> spec_hashtag_in (entry_text e)"
    unfolding t(1) by (rule spec_clean_no_hashtag)
  show "spec_join (spec_tokens (entry_text e)) = entry_text e"
    unfolding t(1) by (rule spec_clean_joined)
  show "cleanText (entry_text e) = entry_text e"
    unfolding t(1) using cleanText_idem [of t] by (simp only: cleanText_spec)
  then show "spec_clean (entry_text e) = entry_text e"
    by (simp only: cleanText_spec)
qed

subsection \<open>The sample texts\<close>

lemma sample_tokens:
  "spec_tokens sample_noisy_text
     = [ascii ''gm'', ascii ''#web3'', ascii ''frens'', ascii ''https://t.co/x'',
        ascii ''www.a.io'', ascii ''##x'']"
  by (simp add: sample_noisy_text_def spec_tokens_def ascii_def spec_white_def)

lemma sample_clean:
  "spec_clean sample_noisy_text = ascii ''gm frens #''"
  unfolding spec_clean_def sample_tokens
  by (simp add: ascii_def spec_url_start_def)

lemma sample_clean_empty: "spec_clean (ascii ''#only https://t.co/y'') = []"
  by (simp add: spec_clean_def spec_tokens_def ascii_def spec_white_def spec_url_start_def)

lemma sample_finetuning:
  "spec_finetuning sample_tweets = [\<lparr> entry_text = ascii ''gm frens #'' \<rparr>]"
proof -
  have "sample_noisy_text \<noteq> []"
    by (simp add: sample_noisy_text_def)
  then show ?thesis
    by (simp add: spec_finetuning_def sample_tweets_def sample_post_def sample_clean
        sample_clean_empty)
      (simp add: ascii_def)
qed

text \<open>
  On the sample: one entry is returned; the second post is empty after cleaning, the
  third is a retweet, the fourth has no timestamp.
\<close>

theorem generateFinetuningData_refines_witness:
  "generateFinetuningData sample_tweets = [\<lparr> entry_text = ascii ''gm frens #'' \<rparr>]
   \<and> spec_finetuning sample_tweets = [\<lparr> entry_text = ascii ''gm frens #'' \<rparr>]
   \<and> \<not> spec_url_in (ascii ''gm frens #'')
   \<and> \<not> spec_hashtag_in (ascii ''gm frens #'')
   \<and> cleanText (ascii ''gm frens #'') = ascii ''gm frens #''"
proof -
  note r = generateFinetuningData_refines [of sample_tweets, unfolded sample_finetuning]
  from r have ev:
    "generateFinetuningData sample_tweets = [\<lparr> entry_text = ascii ''gm frens #'' \<rparr>]"
    by (rule conjunct1)
  from r have "\<forall>e\<in>set (generateFinetuningData sample_tweets).
      \<not> spec_url_in (entry_text e) \<and> \<not> spec_hashtag_in (entry_text e)
      \<and> cleanText (entry_text e) = entry_text e"
    by blast
  then have "\<not> spec_url_in (ascii ''gm frens #'')
      \<and> \<not> spec_hashtag_in (ascii ''gm frens #'')
      \<and> cleanText (ascii ''gm frens #'') = ascii ''gm frens #''"
    unfolding ev by simp
  with ev sample_finetuning show ?thesis
    by (simp only: simp_thms)
qed

lemma shouting_clean: "spec_clean (ascii ''see HTTP://x.io'') = ascii ''see HTTP://x.io''"
  by (simp add: spec_clean_def spec_tokens_def ascii_def spec_white_def spec_url_start_def)

text \<open>
  A post whose timestamp is outside the range of dates, with a URL whose scheme is
  written in capitals: the post is selected and the URL is returned as it is.
\<close>

theorem generateFinetuningData_keeps_capital_url:
  "new_Date (timestamp sample_shouting) = InvalidDate
   \<and> generateFinetuningData [sample_shouting] = [\<lparr> entry_text = ascii ''see HTTP://x.io'' \<rparr>]
   \<and> spec_url_like_in (ascii ''see HTTP://x.io'')"
proof (intro conjI)
  show "new_Date (timestamp sample_shouting) = InvalidDate"
    by (simp add: sample_shouting_def sample_post_def new_Date_def in_date_range_def)
  show "generateFinetuningData [sample_shouting] = [\<lparr> entry_text = ascii ''see HTTP://x.io'' \<rparr>]"
    unfolding generateFinetuningData_spec
    by (simp add: spec_finetuning_def sample_shouting_def sample_post_def shouting_clean)
       (simp add: ascii_def)
  show "spec_url_like_in (ascii ''see HTTP://x.io'')"
    by (simp add: ascii_def spec_url_like_here_def lower_case_def spec_white_def)
qed

end
